theory Spec2Isabelle
  imports Main "HOL-Library.Word"
begin

section \<open>Python strings\<close>

text \<open>
  A Python \<open>str\<close> is a sequence of Unicode code points.  It is modelled as a list of
  natural numbers, one per code point.  \<open>ascii\<close> turns a literal of this theory (all of
  whose characters are ASCII) into such a sequence; the backslash, which cannot be
  written inside a literal, is the code point 92.
\<close>

type_synonym pystr = "nat list"

definition ascii :: "string \<Rightarrow> pystr" where
  "ascii s = map of_char s"

definition bsl :: pystr where
  "bsl = [92]"

section \<open>The escaping transform (cv_builder.py, escape_latex)\<close>

text \<open>
  \<open>text.replace(char, escaped)\<close> for a pattern \<open>char\<close> of length one: every occurrence
  of the code point is replaced, left to right, by \<open>escaped\<close>.
\<close>

definition replace_char :: "nat \<Rightarrow> pystr \<Rightarrow> pystr \<Rightarrow> pystr" where
  "replace_char c escaped text = concat (map (\<lambda>x. if x = c then escaped else [x]) text)"

text \<open>The dictionary \<open>special_chars\<close>, in its insertion order (the order of iteration).\<close>

definition special_chars :: "(nat \<times> pystr) list" where
  "special_chars =
    [(of_char CHR ''&'', bsl @ ascii ''&''),
     (of_char CHR ''%'', bsl @ ascii ''%''),
     (of_char CHR ''#'', bsl @ ascii ''#''),
     (of_char CHR ''_'', bsl @ ascii ''_''),
     (of_char CHR ''{'', bsl @ ascii ''{''),
     (of_char CHR ''}'', bsl @ ascii ''}''),
     (of_char CHR ''~'', bsl @ ascii ''textasciitilde{}''),
     (of_char CHR ''^'', bsl @ ascii ''textasciicircum{}''),
     (92, bsl @ ascii ''textbackslash{}'')]"

text \<open>
  The loop \<open>for char, escaped in special_chars.items(): text = text.replace(char, escaped)\<close>:
  each replacement works on the result of the previous one.  The argument is a \<open>str\<close>
  (another value is first turned into one by \<open>str(text)\<close>).
\<close>

definition escape_latex :: "pystr \<Rightarrow> pystr" where
  "escape_latex text = foldl (\<lambda>t (c, escaped). replace_char c escaped t) text special_chars"

text \<open>
  The transform as the specification words it: one pass over the original text, each
  original character dispatched once, inserted text never looked at again.
\<close>

definition escape_single_pass :: "pystr \<Rightarrow> pystr" where
  "escape_single_pass text =
     concat (map (\<lambda>x. case map_of special_chars x of Some escaped \<Rightarrow> escaped | None \<Rightarrow> [x]) text)"

text \<open>What the chained replacements make of one original character.\<close>

definition chained_char :: "nat \<Rightarrow> pystr" where
  "chained_char x =
     (if x = 92 then bsl @ ascii ''textbackslash{}''
      else case map_of special_chars x of
             Some escaped \<Rightarrow> bsl @ ascii ''textbackslash{}'' @ tl escaped
           | None \<Rightarrow> [x])"

section \<open>The persisted store (cv_builder.py create_new_db, db_converter.py)\<close>

text \<open>
  The table \<open>cv_files (filename TEXT PRIMARY KEY, content TEXT, created_at TEXT)\<close>.
  \<open>created_at\<close> holds \<open>datetime.datetime.now().isoformat()\<close>; the model keeps the clock
  reading itself (microseconds), of which the ISO text is a rendering.  A table is the list
  of its rows in insertion order.
\<close>

record row =
  filename :: pystr
  content :: pystr
  created_at :: nat

type_synonym table = "row list"

text \<open>The primary-key constraint: no two rows with the same filename.\<close>

definition pk_unique :: "table \<Rightarrow> bool" where
  "pk_unique tbl = distinct (map filename tbl)"

definition rows_for :: "pystr \<Rightarrow> table \<Rightarrow> table" where
  "rows_for key tbl = filter (\<lambda>r. filename r = key) tbl"

text \<open>
  \<open>INSERT OR REPLACE INTO cv_files (filename, content, created_at) VALUES (?, ?, ?)\<close>:
  the rows that conflict on the primary key are deleted, then the new row is inserted.
\<close>

definition insert_or_replace :: "pystr \<Rightarrow> pystr \<Rightarrow> nat \<Rightarrow> table \<Rightarrow> table" where
  "insert_or_replace key text time tbl =
     filter (\<lambda>r. filename r \<noteq> key) tbl @ [\<lparr>filename = key, content = text, created_at = time\<rparr>]"

text \<open>
  The directory of database files: a file name is mapped to the table the file holds.
  \<open>sqlite3.connect\<close> followed by \<open>CREATE TABLE IF NOT EXISTS\<close> opens the table of an
  existing file and an empty table otherwise.
\<close>

type_synonym files = "pystr \<rightharpoonup> table"

definition connect :: "files \<Rightarrow> pystr \<Rightarrow> table" where
  "connect fs name = (case fs name of None \<Rightarrow> [] | Some tbl \<Rightarrow> tbl)"

text \<open>
  \<open>create_new_db(json_content, tex_content, sty_content)\<close>.  The two readings of the
  clock are arguments: \<open>timestamp\<close> is \<open>now().strftime("%Y%m%d%H%M")\<close> and
  \<open>current_time\<close> is the later \<open>now()\<close>.  The result is the file name and the
  directory after the commit (the returned file content is the table of that file).
  db_converter.py runs the same statements inline.
\<close>

definition create_new_db ::
  "pystr \<Rightarrow> nat \<Rightarrow> pystr \<Rightarrow> pystr \<Rightarrow> pystr \<Rightarrow> files \<Rightarrow> pystr \<times> files" where
  "create_new_db timestamp current_time json_content tex_content sty_content fs =
     (let db_filename = ascii ''cv'' @ timestamp @ ascii ''.db'';
          t0 = connect fs db_filename;
          t1 = insert_or_replace (ascii ''cv_data.json'') json_content current_time t0;
          t2 = insert_or_replace (ascii ''cv_template.tex'') tex_content current_time t1;
          t3 = insert_or_replace (ascii ''cv_style.sty'') sty_content current_time t2
      in (db_filename, fs(db_filename \<mapsto> t3)))"

section \<open>Regular expressions (the fragment of Python's \<open>re\<close> used by validate_url)\<close>

text \<open>
  A pattern is a term of \<open>rx\<close>; a character class (a literal, \<open>[...]\<close>, \<open>\w\<close>, \<open>.\<close>) is
  the predicate \<open>Chars\<close> of the code points it admits.  \<open>r?\<close> is \<open>Opt r\<close>, \<open>r+\<close> is
  \<open>Many1 r\<close>, \<open>r*\<close> is \<open>Rep r\<close>.  Whether some way of matching exists does not depend on
  the order in which a backtracking matcher tries the alternatives, so matching is decided
  by derivatives: \<open>deriv c r\<close> matches what \<open>r\<close> matches after a leading \<open>c\<close>.
\<close>

datatype rx = Never | Eps | Chars "nat \<Rightarrow> bool" | Seq rx rx | Alt rx rx | Rep rx

definition Chr :: "nat \<Rightarrow> rx" where
  "Chr c = Chars (\<lambda>x. x = c)"

definition Lit :: "pystr \<Rightarrow> rx" where
  "Lit s = foldr (\<lambda>c r. Seq (Chr c) r) s Eps"

definition Opt :: "rx \<Rightarrow> rx" where
  "Opt r = Alt r Eps"

definition Many1 :: "rx \<Rightarrow> rx" where
  "Many1 r = Seq r (Rep r)"

fun nullable :: "rx \<Rightarrow> bool" where
  "nullable Never = False"
| "nullable Eps = True"
| "nullable (Chars p) = False"
| "nullable (Seq r s) = (nullable r \<and> nullable s)"
| "nullable (Alt r s) = (nullable r \<or> nullable s)"
| "nullable (Rep r) = True"

fun deriv :: "nat \<Rightarrow> rx \<Rightarrow> rx" where
  "deriv c Never = Never"
| "deriv c Eps = Never"
| "deriv c (Chars p) = (if p c then Eps else Never)"
| "deriv c (Seq r s) =
     (if nullable r then Alt (Seq (deriv c r) s) (deriv c s) else Seq (deriv c r) s)"
| "deriv c (Alt r s) = Alt (deriv c r) (deriv c s)"
| "deriv c (Rep r) = Seq (deriv c r) (Rep r)"

fun matches :: "rx \<Rightarrow> pystr \<Rightarrow> bool" where
  "matches r [] = nullable r"
| "matches r (c # cs) = matches (deriv c r) cs"

text \<open>
  \<open>bool(re.match('^' + r + '$', s))\<close> without flags: \<open>^\<close> holds at the start, where
  \<open>re.match\<close> begins; \<open>$\<close> holds at the end of the string and just before a line feed
  that is the last character of the string.  So \<open>r\<close> has to match all of \<open>s\<close>, or all of
  \<open>s\<close> but a final line feed.
\<close>

definition re_match_to_end :: "rx \<Rightarrow> pystr \<Rightarrow> bool" where
  "re_match_to_end r s = (matches r s \<or> (s \<noteq> [] \<and> last s = 10 \<and> matches r (butlast s)))"

text \<open>
  \<open>\w\<close> in a \<open>str\<close> pattern matches the Unicode word characters: the underscore and every
  code point that \<open>str.isalnum\<close> accepts.  Below 128 these are the ASCII letters, the ASCII
  digits and the underscore.  From 128 on they are given by Python's Unicode database,
  which is no part of this repository: the predicate \<open>uw\<close> (the non-ASCII code points that
  \<open>\w\<close> matches) is a parameter of the model.
\<close>

definition ascii_word :: "nat \<Rightarrow> bool" where
  "ascii_word c = ((48 \<le> c \<and> c \<le> 57) \<or> (65 \<le> c \<and> c \<le> 90) \<or> (97 \<le> c \<and> c \<le> 122) \<or> c = 95)"

definition word_char :: "(nat \<Rightarrow> bool) \<Rightarrow> nat \<Rightarrow> bool" where
  "word_char uw c = (if c < 128 then ascii_word c else uw c)"

text \<open>The class \<open>[\w\-]\<close>.\<close>

definition label_char :: "(nat \<Rightarrow> bool) \<Rightarrow> nat \<Rightarrow> bool" where
  "label_char uw c = (word_char uw c \<or> c = 45)"

text \<open>
  The pattern of \<open>validate_url\<close> between its anchors:
  \<open>(https?://)?[\w\-]+(\.[\w\-]+)+[/#?]?.*\<close>.  The dot matches every code point but the
  line feed (10).
\<close>

definition url_regex :: "(nat \<Rightarrow> bool) \<Rightarrow> rx" where
  "url_regex uw =
     Seq (Opt (Seq (Lit (ascii ''http'')) (Seq (Opt (Chr (of_char CHR ''s''))) (Lit (ascii ''://'')))))
    (Seq (Many1 (Chars (label_char uw)))
    (Seq (Many1 (Seq (Chr (of_char CHR ''.'')) (Many1 (Chars (label_char uw)))))
    (Seq (Opt (Chars (\<lambda>c. c = of_char CHR ''/'' \<or> c = of_char CHR ''#'' \<or> c = of_char CHR ''?'')))
         (Rep (Chars (\<lambda>c. c \<noteq> 10))))))"

text \<open>\<open>return bool(re.match(regex, url)) if url else True\<close>, for a \<open>str\<close> argument.\<close>

definition validate_url :: "(nat \<Rightarrow> bool) \<Rightarrow> pystr \<Rightarrow> bool" where
  "validate_url uw url = (if url \<noteq> [] then re_match_to_end (url_regex uw) url else True)"

text \<open>
  The letters of the Latin-1 block (U+00AA, U+00B5, U+00BA and U+00C0 to U+00FF without the
  multiplication and division signs): a part of the Unicode word characters, used where an
  example needs a definite table.
\<close>

definition uw_latin1 :: "nat \<Rightarrow> bool" where
  "uw_latin1 c = (c = 170 \<or> c = 181 \<or> c = 186 \<or> (192 \<le> c \<and> c \<le> 255 \<and> c \<noteq> 215 \<and> c \<noteq> 247))"

subsection \<open>The language of a pattern\<close>

text \<open>
  The set of strings a pattern matches, for the proofs; \<open>matches\<close> decides membership
  (lemma \<open>matches_lang\<close>).
\<close>

inductive_set star :: "pystr set \<Rightarrow> pystr set" for A :: "pystr set" where
  star_nil: "[] \<in> star A"
| star_app: "u \<in> A \<Longrightarrow> v \<in> star A \<Longrightarrow> u @ v \<in> star A"

fun lang :: "rx \<Rightarrow> pystr set" where
  "lang Never = {}"
| "lang Eps = {[]}"
| "lang (Chars p) = {[c] | c. p c}"
| "lang (Seq r s) = {u @ v | u v. u \<in> lang r \<and> v \<in> lang s}"
| "lang (Alt r s) = lang r \<union> lang s"
| "lang (Rep r) = star (lang r)"

text \<open>The two groups of the pattern that follow the first label: \<open>\.[\w\-]+\<close> and \<open>[/#?]?.*\<close>.\<close>

definition dot_label :: "(nat \<Rightarrow> bool) \<Rightarrow> rx" where
  "dot_label uw = Seq (Chr (of_char CHR ''.'')) (Many1 (Chars (label_char uw)))"

definition tail_rx :: rx where
  "tail_rx = Seq (Opt (Chars (\<lambda>c. c = of_char CHR ''/'' \<or> c = of_char CHR ''#'' \<or> c = of_char CHR ''?'')))
                 (Rep (Chars (\<lambda>c. c \<noteq> 10)))"

subsection \<open>The shape of an accepted URL, in the words of the specification\<close>

text \<open>
  An optional \<open>http://\<close> or \<open>https://\<close>, then a non-empty run of label characters, a dot
  (46) and a label character, then any characters other than the line feed.
\<close>

definition schemes :: "pystr set" where
  "schemes = {[], ascii ''http://'', ascii ''https://''}"

definition url_form :: "(nat \<Rightarrow> bool) \<Rightarrow> pystr \<Rightarrow> bool" where
  "url_form uw s = (\<exists>p l c rest. s = p @ l @ 46 # c # rest \<and> p \<in> schemes \<and> l \<noteq> []
      \<and> list_all (label_char uw) l \<and> label_char uw c \<and> 10 \<notin> set rest)"

text \<open>Labels joined by dots: \<open>".".join(labels)\<close>.\<close>

fun join_dots :: "pystr list \<Rightarrow> pystr" where
  "join_dots [] = []"
| "join_dots [l] = l"
| "join_dots (l # ls) = l @ 46 # join_dots ls"

section \<open>Python values read from JSON\<close>

text \<open>
  A value that \<open>json.loads\<close> returns: \<open>None\<close>, a \<open>bool\<close>, an \<open>int\<close>, a \<open>float\<close>, a
  \<open>str\<close>, a \<open>list\<close> or a \<open>dict\<close> with \<open>str\<close> keys.  A dict is the list of its items in
  insertion order, which is the order of iteration.  A float is kept as its IEEE 754 bit
  pattern: the code never computes with one, only its truth value is ever asked for.
\<close>

datatype json = JNull | JBool bool | JInt int | JFloat "64 word" | JStr pystr
  | JArr "json list" | JObj "(pystr \<times> json) list"

text \<open>
  The exceptions the modelled code can raise; a computation returns \<open>Inl\<close> of the
  exception or \<open>Inr\<close> of its value, and \<open>and_then\<close> sequences two computations.
\<close>

datatype pyerror = KeyError | TypeError | AttributeError | IndexError | JSONDecodeError

type_synonym 'a result = "pyerror + 'a"

definition and_then :: "'a result \<Rightarrow> ('a \<Rightarrow> 'b result) \<Rightarrow> 'b result" where
  "and_then m f = (case m of Inl e \<Rightarrow> Inl e | Inr x \<Rightarrow> f x)"

text \<open>
  A loop over a list whose body may raise: the first exception ends the loop.
\<close>

fun map_result :: "('a \<Rightarrow> 'b result) \<Rightarrow> 'a list \<Rightarrow> 'b list result" where
  "map_result f [] = Inr []"
| "map_result f (x # xs) = and_then (f x) (\<lambda>y. and_then (map_result f xs) (\<lambda>ys. Inr (y # ys)))"

text \<open>
  \<open>d[k] = v\<close> on a dict: the value of an existing key is replaced in place, a new key is
  added at the end.  \<open>del d[k]\<close> removes the item.
\<close>

fun dict_set :: "pystr \<Rightarrow> json \<Rightarrow> (pystr \<times> json) list \<Rightarrow> (pystr \<times> json) list" where
  "dict_set k v [] = [(k, v)]"
| "dict_set k v ((k', v') # d) = (if k' = k then (k, v) # d else (k', v') # dict_set k v d)"

definition dict_del :: "pystr \<Rightarrow> (pystr \<times> json) list \<Rightarrow> (pystr \<times> json) list" where
  "dict_del k d = filter (\<lambda>kv. fst kv \<noteq> k) d"

text \<open>
  The truth value of a value, as \<open>if x\<close> and \<open>not x\<close> take it.
\<close>

fun truthy :: "json \<Rightarrow> bool" where
  "truthy JNull = False"
| "truthy (JBool b) = b"
| "truthy (JInt i) = (i \<noteq> 0)"
| "truthy (JFloat w) = (w \<noteq> 0 \<and> w \<noteq> 0x8000000000000000)"
| "truthy (JStr s) = (s \<noteq> [])"
| "truthy (JArr xs) = (xs \<noteq> [])"
| "truthy (JObj d) = (d \<noteq> [])"

text \<open>
  \<open>obj[k]\<close> and \<open>obj[k] = v\<close> for a \<open>str\<close> key: \<open>KeyError\<close> for a key a dict does not
  have, \<open>TypeError\<close> for every value that is not a dict.
\<close>

fun getitem :: "json \<Rightarrow> pystr \<Rightarrow> json result" where
  "getitem (JObj d) k = (case map_of d k of None \<Rightarrow> Inl KeyError | Some v \<Rightarrow> Inr v)"
| "getitem _ k = Inl TypeError"

fun setitem :: "json \<Rightarrow> pystr \<Rightarrow> json \<Rightarrow> json result" where
  "setitem (JObj d) k v = Inr (JObj (dict_set k v d))"
| "setitem _ k v = Inl TypeError"

text \<open>
  \<open>k in obj\<close> for a \<open>str\<close> \<open>k\<close>: a key of a dict, an element of a list, a substring of a
  string; \<open>TypeError\<close> otherwise.
\<close>

fun in_str :: "pystr \<Rightarrow> pystr \<Rightarrow> bool" where
  "in_str k [] = (k = [])"
| "in_str k (c # s) = (take (length k) (c # s) = k \<or> in_str k s)"

fun py_in :: "pystr \<Rightarrow> json \<Rightarrow> bool result" where
  "py_in k (JObj d) = Inr (k \<in> fst ` set d)"
| "py_in k (JArr xs) = Inr (JStr k \<in> set xs)"
| "py_in k (JStr s) = Inr (in_str k s)"
| "py_in k _ = Inl TypeError"

text \<open>
  \<open>for x in obj\<close> runs over the elements of a list, the keys of a dict and the characters
  of a string; \<open>obj.items()\<close> exists for a dict only.
\<close>

fun py_iter :: "json \<Rightarrow> json list result" where
  "py_iter (JArr xs) = Inr xs"
| "py_iter (JObj d) = Inr (map (\<lambda>kv. JStr (fst kv)) d)"
| "py_iter (JStr s) = Inr (map (\<lambda>c. JStr [c]) s)"
| "py_iter _ = Inl TypeError"

fun py_items :: "json \<Rightarrow> (pystr \<times> json) list result" where
  "py_items (JObj d) = Inr d"
| "py_items _ = Inl AttributeError"

text \<open>
  \<open>data[k1][k2]...\<close>, and the in-place change of the object found there: the model
  rebuilds the dicts on the way, each key keeping its position.
\<close>

fun getpath :: "json \<Rightarrow> pystr list \<Rightarrow> json result" where
  "getpath j [] = Inr j"
| "getpath j (k # ks) = and_then (getitem j k) (\<lambda>v. getpath v ks)"

fun update_path :: "json \<Rightarrow> pystr list \<Rightarrow> (json \<Rightarrow> json result) \<Rightarrow> json result" where
  "update_path j [] f = f j"
| "update_path j (k # ks) f =
     and_then (getitem j k) (\<lambda>sub. and_then (update_path sub ks f) (\<lambda>sub'. setitem j k sub'))"

text \<open>
  Dict literals of the source: \<open>obj\<close> with the given values, \<open>str_obj\<close> with every value
  the empty string.
\<close>

definition obj :: "(string \<times> json) list \<Rightarrow> json" where
  "obj kvs = JObj (map (\<lambda>kv. (ascii (fst kv), snd kv)) kvs)"

definition str_obj :: "string list \<Rightarrow> json" where
  "str_obj ks = JObj (map (\<lambda>k. (ascii k, JStr [])) ks)"

section \<open>The validator (cv_builder.py, validate_data)\<close>

text \<open>
  The body of each URL loop:
  \<open>if item['url'] and not validate_url(item['url']): errors.append(f"<ctx>{item['url']}")\<close>.
  \<open>validate_url\<close> is reached with a true value only; \<open>re.match\<close> raises \<open>TypeError\<close> when it
  is not a string.
\<close>

definition check_url :: "(nat \<Rightarrow> bool) \<Rightarrow> pystr \<Rightarrow> json \<Rightarrow> pystr list result" where
  "check_url uw ctx item =
     and_then (getitem item (ascii ''url'')) (\<lambda>u.
       if truthy u then
         (case u of JStr s \<Rightarrow> Inr (if validate_url uw s then [] else [ctx @ s])
          | _ \<Rightarrow> Inl TypeError)
       else Inr [])"

text \<open>
  \<open>for item in coll: ...\<close> and
  \<open>for year, coll in m.items(): for item in coll: ...\<close>, the year being part of the message.
\<close>

definition url_errors :: "(nat \<Rightarrow> bool) \<Rightarrow> pystr \<Rightarrow> json \<Rightarrow> pystr list result" where
  "url_errors uw ctx coll =
     and_then (py_iter coll) (\<lambda>xs. and_then (map_result (check_url uw ctx) xs) (\<lambda>es. Inr (concat es)))"

definition year_url_errors :: "(nat \<Rightarrow> bool) \<Rightarrow> pystr \<Rightarrow> json \<Rightarrow> pystr list result" where
  "year_url_errors uw ctx m =
     and_then (py_items m) (\<lambda>kvs.
       and_then (map_result (\<lambda>kv. url_errors uw (ctx @ fst kv @ ascii ''): '') (snd kv)) kvs)
         (\<lambda>es. Inr (concat es)))"

text \<open>
  \<open>validate_data(data)\<close>: the two required fields, then the eight URL-bearing collections
  in the order of the source; the messages are appended in that order.
\<close>

definition validate_data :: "(nat \<Rightarrow> bool) \<Rightarrow> json \<Rightarrow> pystr list result" where
  "validate_data uw data =
     and_then (getpath data [ascii ''personal_info'', ascii ''name'']) (\<lambda>name.
     and_then (getpath data [ascii ''languages'', ascii ''mother_tongue'']) (\<lambda>mother_tongue.
     and_then (and_then (getpath data [ascii ''publications'', ascii ''under_review''])
             (url_errors uw (ascii ''Invalid URL in Under Review Publication: ''))) (\<lambda>e1.
     and_then (and_then (getpath data [ascii ''publications'', ascii ''by_year''])
             (year_url_errors uw (ascii ''Invalid URL in Publication (Year ''))) (\<lambda>e2.
     and_then (and_then (getpath data [ascii ''conference_proceedings''])
             (year_url_errors uw (ascii ''Invalid URL in Conference Proceeding (Year ''))) (\<lambda>e3.
     and_then (and_then (getpath data [ascii ''academic_activities'', ascii ''profiles''])
             (url_errors uw (ascii ''Invalid URL in Scholarly Profile: ''))) (\<lambda>e4.
     and_then (and_then (getpath data [ascii ''academic_activities'', ascii ''talks''])
             (url_errors uw (ascii ''Invalid URL in Invited Talk: ''))) (\<lambda>e5.
     and_then (and_then (getpath data [ascii ''academic_activities'', ascii ''editorial''])
             (url_errors uw (ascii ''Invalid URL in Editorial Work: ''))) (\<lambda>e6.
     and_then (and_then (getpath data [ascii ''memberships''])
             (url_errors uw (ascii ''Invalid URL in Membership: ''))) (\<lambda>e7.
     and_then (and_then (getpath data [ascii ''skills'', ascii ''softwares''])
             (url_errors uw (ascii ''Invalid URL in Software: ''))) (\<lambda>e8.
     Inr ((if truthy name then [] else [ascii ''Full Name is required.''])
        @ (if truthy mother_tongue then [] else [ascii ''Mother Tongue is required.''])
        @ e1 @ e2 @ e3 @ e4 @ e5 @ e6 @ e7 @ e8)))))))))))"

section \<open>The record of the CV builder\<close>

text \<open>
  \<open>default_data\<close> of cv_builder.py.
\<close>

definition default_data :: json where
  "default_data = obj
    [(''personal_info'', str_obj [''name'', ''nationality'', ''dob'', ''current_address'',
        ''permanent_address'', ''email'']),
     (''languages'', obj
        [(''mother_tongue'', JStr []),
         (''english_listening'', JStr (ascii ''C2 (proficient)'')),
         (''english_reading'', JStr (ascii ''C2 (proficient)'')),
         (''english_speaking'', JStr (ascii ''C2 (proficient)'')),
         (''english_writing'', JStr (ascii ''C2 (proficient)'')),
         (''hindi_listening'', JStr (ascii ''C2 (proficient)'')),
         (''hindi_reading'', JStr (ascii ''C2 (proficient)'')),
         (''hindi_speaking'', JStr (ascii ''C2 (proficient)'')),
         (''hindi_writing'', JStr (ascii ''C2 (proficient)''))]),
     (''professional_experience'', JArr []),
     (''education'', JArr []),
     (''publications'', obj [(''under_review'', JArr []), (''by_year'', JObj [])]),
     (''conference_proceedings'', JObj []),
     (''book'', str_obj [''authors'', ''title'', ''publisher'', ''year'', ''isbn'']),
     (''academic_activities'', obj
        [(''conferences'', JArr []), (''talks'', JArr []), (''editorial'', JArr []),
         (''profiles'', JArr []), (''reviews'', JArr []), (''journals'', JArr [])]),
     (''grants_awards'', obj [(''grants'', JArr []), (''awards'', JArr [])]),
     (''skills'', obj
        [(''h_index'', JStr []), (''researchgate_score'', JStr []),
         (''programming_languages'', JStr []), (''softwares'', JArr []),
         (''parallel_computing'', JStr []), (''experiments'', JStr [])]),
     (''memberships'', JArr []),
     (''last_updated'', JStr [])]"

text \<open>
  The documented shape of a record.  \<open>SStr\<close> is a string leaf, \<open>SList t\<close> a list of
  items of shape \<open>t\<close>, \<open>SYears t\<close> a dict from year keys to values of shape \<open>t\<close>, \<open>SRec\<close> a
  dict that has at least the listed keys, \<open>SAny\<close> any value.  A record is normalized when
  every known section exists in its shape and every known leaf field is present on every
  item: the sections are those of \<open>default_data\<close>, the fields of an item those of the dict
  the source appends to the collection.
\<close>

datatype schema = SAny | SStr | SList schema | SYears schema | SRec "(string \<times> schema) list"

fun conforms :: "schema \<Rightarrow> json \<Rightarrow> bool" where
  "conforms SAny j = True"
| "conforms SStr j = (case j of JStr s \<Rightarrow> True | _ \<Rightarrow> False)"
| "conforms (SList t) j = (case j of JArr xs \<Rightarrow> list_all (conforms t) xs | _ \<Rightarrow> False)"
| "conforms (SYears t) j = (case j of JObj d \<Rightarrow> list_all (\<lambda>kv. conforms t (snd kv)) d | _ \<Rightarrow> False)"
| "conforms (SRec fs) j =
     (case j of
        JObj d \<Rightarrow>
          list_all (\<lambda>f. case map_of d (ascii (fst f)) of Some v \<Rightarrow> conforms (snd f) v | None \<Rightarrow> False) fs
      | _ \<Rightarrow> False)"

fun schema_at :: "schema \<Rightarrow> string list \<Rightarrow> schema option" where
  "schema_at s [] = Some s"
| "schema_at (SRec fs) (k # ks) = (case map_of fs k of Some t \<Rightarrow> schema_at t ks | None \<Rightarrow> None)"
| "schema_at _ (k # ks) = None"

definition strs :: "string list \<Rightarrow> schema" where
  "strs ks = SRec (map (\<lambda>k. (k, SStr)) ks)"

definition publication_fields :: "string list" where
  "publication_fields = [''authors'', ''title'', ''journal'', ''url'', ''impact_factor'', ''citations'']"

definition cv_schema :: schema where
  "cv_schema = SRec
    [(''personal_info'', strs [''name'', ''nationality'', ''dob'', ''current_address'',
        ''permanent_address'', ''email'']),
     (''languages'', strs [''mother_tongue'', ''english_listening'', ''english_reading'',
        ''english_speaking'', ''english_writing'', ''hindi_listening'', ''hindi_reading'',
        ''hindi_speaking'', ''hindi_writing'']),
     (''professional_experience'',
        SList (strs [''duration'', ''position'', ''employer'', ''activity''])),
     (''education'',
        SList (strs [''duration'', ''qualification'', ''thesis_title'', ''organization''])),
     (''publications'', SRec
        [(''under_review'', SList (strs publication_fields)),
         (''by_year'', SYears (SList (strs publication_fields)))]),
     (''conference_proceedings'',
        SYears (SList (strs [''authors'', ''title'', ''venue'', ''url'', ''citations'']))),
     (''book'', strs [''authors'', ''title'', ''publisher'', ''year'', ''isbn'']),
     (''academic_activities'', SRec
        [(''conferences'', SList (strs [''date'', ''role'', ''event'', ''url''])),
         (''talks'', SList (strs [''date'', ''title'', ''event'', ''url''])),
         (''editorial'', SList (strs [''date'', ''role'', ''journal'', ''url''])),
         (''profiles'', SList (strs [''name'', ''url''])),
         (''reviews'', SList (strs [''year'', ''count''])),
         (''journals'', SList SStr)]),
     (''grants_awards'', SRec
        [(''grants'', SList (strs [''duration'', ''agency'', ''category'', ''number'', ''amount''])),
         (''awards'', SList (strs [''year'', ''description'']))]),
     (''skills'', SRec
        [(''h_index'', SStr), (''researchgate_score'', SStr),
         (''programming_languages'', SStr),
         (''softwares'', SList (strs [''name'', ''url''])),
         (''parallel_computing'', SStr), (''experiments'', SStr)]),
     (''memberships'', SList (strs [''name'', ''url'', ''details''])),
     (''last_updated'', SStr)]"

definition cv_normalized :: "json \<Rightarrow> bool" where
  "cv_normalized d = conforms cv_schema d"





section \<open>Editing operations (cv_builder.py, the tabs of the form)\<close>

text \<open>
  \<open>coll.append(item)\<close>, \<open>coll.pop(i)\<close> and \<open>del m[k]\<close>.  A dict has a \<open>pop\<close> of its own,
  which raises \<open>KeyError\<close> for the integer; the other values have none.
\<close>

fun list_append :: "json \<Rightarrow> json \<Rightarrow> json result" where
  "list_append item (JArr xs) = Inr (JArr (xs @ [item]))"
| "list_append item _ = Inl AttributeError"

fun list_pop :: "nat \<Rightarrow> json \<Rightarrow> json result" where
  "list_pop i (JArr xs) = (if i < length xs then Inr (JArr (take i xs @ drop (Suc i) xs)) else Inl IndexError)"
| "list_pop i (JObj d) = Inl KeyError"
| "list_pop i _ = Inl AttributeError"

fun del_item :: "json \<Rightarrow> pystr \<Rightarrow> json result" where
  "del_item (JObj d) k = (if k \<in> fst ` set d then Inr (JObj (dict_del k d)) else Inl KeyError)"
| "del_item _ k = Inl TypeError"

text \<open>
  \<open>item[field] = st.text_input(..., value=item[field])\<close>: the field is read, then
  written with the string the widget returns.  \<open>at_index\<close> is the same for the item that
  \<open>enumerate\<close> numbers \<open>i\<close>.
\<close>

definition assign_field :: "pystr \<Rightarrow> pystr \<Rightarrow> json \<Rightarrow> json result" where
  "assign_field field v item = and_then (getitem item field) (\<lambda>old. setitem item field (JStr v))"

fun at_index :: "nat \<Rightarrow> (json \<Rightarrow> json result) \<Rightarrow> json \<Rightarrow> json result" where
  "at_index i f (JArr xs) =
     (if i < length xs then and_then (f (xs ! i)) (\<lambda>x'. Inr (JArr (xs[i := x']))) else Inl IndexError)"
| "at_index i f _ = Inl TypeError"

text \<open>
  \<open>year.isdigit()\<close>: true when the string is not empty and every character is a digit.
  Below 128 the digits are \<open>0\<close> to \<open>9\<close>; from 128 on they are the code points of Python's
  Unicode database with the property Numeric_Type=Digit or Decimal, which is no part of
  this repository: the predicate \<open>ud\<close> is a parameter of the model.
\<close>

definition ascii_digit :: "nat \<Rightarrow> bool" where
  "ascii_digit c = (48 \<le> c \<and> c \<le> 57)"

definition isdigit :: "(nat \<Rightarrow> bool) \<Rightarrow> pystr \<Rightarrow> bool" where
  "isdigit ud s = (s \<noteq> [] \<and> list_all (\<lambda>c. if c < 128 then ascii_digit c else ud c) s)"

text \<open>
  The superscripts two, three and one (U+00B2, U+00B3, U+00B9): digits for \<open>isdigit\<close>
  that are not decimal digits; a part of the table, used where an example needs a
  definite one.
\<close>

definition ud_superscripts :: "nat \<Rightarrow> bool" where
  "ud_superscripts c = (c = 178 \<or> c = 179 \<or> c = 185)"

definition decimal_digits :: "pystr \<Rightarrow> bool" where
  "decimal_digits s = (s \<noteq> [] \<and> list_all ascii_digit s)"

text \<open>
  The thirteen list collections with their place in the record and the item that the
  "Add" button appends, and the two collections keyed by year.
\<close>

datatype collection = ProfessionalExperience | Education | UnderReview | Conferences | Talks
  | Editorial | Profiles | Reviews | Journals | Grants | Awards | Softwares | Memberships

fun coll_path :: "collection \<Rightarrow> string list" where
  "coll_path ProfessionalExperience = [''professional_experience'']"
| "coll_path Education = [''education'']"
| "coll_path UnderReview = [''publications'', ''under_review'']"
| "coll_path Conferences = [''academic_activities'', ''conferences'']"
| "coll_path Talks = [''academic_activities'', ''talks'']"
| "coll_path Editorial = [''academic_activities'', ''editorial'']"
| "coll_path Profiles = [''academic_activities'', ''profiles'']"
| "coll_path Reviews = [''academic_activities'', ''reviews'']"
| "coll_path Journals = [''academic_activities'', ''journals'']"
| "coll_path Grants = [''grants_awards'', ''grants'']"
| "coll_path Awards = [''grants_awards'', ''awards'']"
| "coll_path Softwares = [''skills'', ''softwares'']"
| "coll_path Memberships = [''memberships'']"

fun new_item :: "collection \<Rightarrow> json" where
  "new_item ProfessionalExperience = str_obj [''duration'', ''position'', ''employer'', ''activity'']"
| "new_item Education = str_obj [''duration'', ''qualification'', ''thesis_title'', ''organization'']"
| "new_item UnderReview = str_obj [''authors'', ''title'', ''journal'', ''url'', ''impact_factor'', ''citations'']"
| "new_item Conferences = str_obj [''date'', ''role'', ''event'', ''url'']"
| "new_item Talks = str_obj [''date'', ''title'', ''event'', ''url'']"
| "new_item Editorial = str_obj [''date'', ''role'', ''journal'', ''url'']"
| "new_item Profiles = str_obj [''name'', ''url'']"
| "new_item Reviews = str_obj [''year'', ''count'']"
| "new_item Journals = JStr []"
| "new_item Grants = str_obj [''duration'', ''agency'', ''category'', ''number'', ''amount'']"
| "new_item Awards = str_obj [''year'', ''description'']"
| "new_item Softwares = str_obj [''name'', ''url'']"
| "new_item Memberships = str_obj [''name'', ''url'', ''details'']"

datatype year_collection = ByYear | ConferenceProceedings

fun year_path :: "year_collection \<Rightarrow> string list" where
  "year_path ByYear = [''publications'', ''by_year'']"
| "year_path ConferenceProceedings = [''conference_proceedings'']"

fun new_year_item :: "year_collection \<Rightarrow> json" where
  "new_year_item ByYear = str_obj [''authors'', ''title'', ''journal'', ''url'', ''impact_factor'', ''citations'']"
| "new_year_item ConferenceProceedings = str_obj [''authors'', ''title'', ''venue'', ''url'', ''citations'']"

datatype scalar_section = PersonalInfo | Languages | Book | Skills

fun section_key :: "scalar_section \<Rightarrow> string" where
  "section_key PersonalInfo = ''personal_info''"
| "section_key Languages = ''languages''"
| "section_key Book = ''book''"
| "section_key Skills = ''skills''"

text \<open>
  "Add ... for Year", inside \<open>if year and year.isdigit()\<close>:
  \<open>if year not in m: m[year] = []\<close>, then \<open>m[year].append(item)\<close>.
\<close>

definition add_to_year :: "pystr \<Rightarrow> json \<Rightarrow> json \<Rightarrow> json result" where
  "add_to_year year item m =
     and_then (py_in year m) (\<lambda>present.
     and_then (if present then Inr m else setitem m year (JArr [])) (\<lambda>m1.
     and_then (getitem m1 year) (\<lambda>bucket.
     and_then (list_append item bucket) (\<lambda>bucket'. setitem m1 year bucket'))))"

text \<open>
  "Remove" in a year: \<open>m[year].pop(i)\<close>, then \<open>if not m[year]: del m[year]\<close>.
\<close>

definition remove_from_year :: "pystr \<Rightarrow> nat \<Rightarrow> json \<Rightarrow> json result" where
  "remove_from_year year i m =
     and_then (getitem m year) (\<lambda>bucket.
     and_then (list_pop i bucket) (\<lambda>bucket'.
     and_then (setitem m year bucket') (\<lambda>m1.
     if truthy bucket' then Inr m1 else del_item m1 year)))"

text \<open>
  One editing step of the form.  A field is set to the value its widget returns; the
  model admits any field name and any string there, which is more than the widgets of the
  form can do (a select box of the Languages tab also raises \<open>ValueError\<close> when the stored
  value is none of its options; the model lets that step through).  Where the collection
  is not a list, the loop over its items raises \<open>TypeError\<close> at the item; the model says
  the same of \<open>journals[i] = ...\<close> on a dict, where Python would store an integer key that
  no JSON record holds.  None of these steps touches a year key.
\<close>

datatype action =
    SetScalar scalar_section string pystr
  | AddItem collection
  | SetItemField collection nat string pystr
  | SetJournal nat pystr
  | RemoveItem collection nat
  | AddYearItem year_collection pystr
  | SetYearItemField year_collection pystr nat string pystr
  | RemoveYearItem year_collection pystr nat

fun apply_action :: "(nat \<Rightarrow> bool) \<Rightarrow> action \<Rightarrow> json \<Rightarrow> json result" where
  "apply_action ud (SetScalar sec field v) data =
     update_path data [ascii (section_key sec)] (assign_field (ascii field) v)"
| "apply_action ud (AddItem c) data =
     update_path data (map ascii (coll_path c)) (list_append (new_item c))"
| "apply_action ud (SetItemField c i field v) data =
     update_path data (map ascii (coll_path c)) (at_index i (assign_field (ascii field) v))"
| "apply_action ud (SetJournal i v) data =
     update_path data (map ascii (coll_path Journals)) (at_index i (\<lambda>old. Inr (JStr v)))"
| "apply_action ud (RemoveItem c i) data =
     update_path data (map ascii (coll_path c)) (list_pop i)"
| "apply_action ud (AddYearItem yc year) data =
     (if year \<noteq> [] \<and> isdigit ud year
      then update_path data (map ascii (year_path yc)) (add_to_year year (new_year_item yc))
      else Inr data)"
| "apply_action ud (SetYearItemField yc year i field v) data =
     update_path data (map ascii (year_path yc) @ [year]) (at_index i (assign_field (ascii field) v))"
| "apply_action ud (RemoveYearItem yc year i) data =
     update_path data (map ascii (year_path yc)) (remove_from_year year i)"

fun run :: "(nat \<Rightarrow> bool) \<Rightarrow> action list \<Rightarrow> json \<Rightarrow> json result" where
  "run ud [] data = Inr data"
| "run ud (a # as) data = and_then (apply_action ud a data) (run ud as)"

text \<open>
  The length of a list collection and of a year's bucket (0 when there is none), and
  the year keys of a collection.
\<close>

definition coll_len :: "collection \<Rightarrow> json \<Rightarrow> nat" where
  "coll_len c data = (case getpath data (map ascii (coll_path c)) of Inr (JArr xs) \<Rightarrow> length xs | _ \<Rightarrow> 0)"

definition year_buckets :: "year_collection \<Rightarrow> json \<Rightarrow> (pystr \<times> json) list" where
  "year_buckets yc data = (case getpath data (map ascii (year_path yc)) of Inr (JObj m) \<Rightarrow> m | _ \<Rightarrow> [])"

definition bucket_len :: "year_collection \<Rightarrow> pystr \<Rightarrow> json \<Rightarrow> nat" where
  "bucket_len yc year data = (case map_of (year_buckets yc data) year of Some (JArr xs) \<Rightarrow> length xs | _ \<Rightarrow> 0)"

definition year_keys :: "year_collection \<Rightarrow> json \<Rightarrow> pystr set" where
  "year_keys yc data = fst ` set (year_buckets yc data)"

text \<open>
  The invariant of the year keys: every key of \<open>publications.by_year\<close> and of
  \<open>conference_proceedings\<close> passes the test of the "Add" button.
\<close>

definition year_keys_ok :: "(nat \<Rightarrow> bool) \<Rightarrow> json \<Rightarrow> bool" where
  "year_keys_ok ud data = (\<forall>yc. \<forall>k \<in> year_keys yc data. k \<noteq> [] \<and> isdigit ud k)"

text \<open>
  Two paths diverge when they differ at a position both have.
\<close>

fun diverge :: "pystr list \<Rightarrow> pystr list \<Rightarrow> bool" where
  "diverge (a # p) (b # q) = (a \<noteq> b \<or> diverge p q)"
| "diverge _ _ = False"

text \<open>
  The record \<open>{name: "A", mother_tongue: "B"}\<close>, the rest defaulted; \<open>the_result\<close> reads
  the value of a computation that did not raise.
\<close>

definition the_result :: "json result \<Rightarrow> json" where
  "the_result r = (case r of Inr d \<Rightarrow> d | Inl e \<Rightarrow> JNull)"


section \<open>Normalization (publication_manager_updated.py, publication_manager_mwe.py)\<close>

text \<open>
  The literal \<open>{"under_review": [], "by_year": {}}\<close> and \<open>isinstance(x, dict)\<close>.
\<close>

definition default_publications :: json where
  "default_publications = obj [(''under_review'', JArr []), (''by_year'', JObj [])]"

fun is_dict :: "json \<Rightarrow> bool" where
  "is_dict (JObj d) = True"
| "is_dict _ = False"

text \<open>
  \<open>for key in [...]: if key not in pub: pub[key] = ""\<close>.
\<close>

definition fill_key :: "pystr \<Rightarrow> json \<Rightarrow> json result" where
  "fill_key key pub =
     and_then (py_in key pub) (\<lambda>present. if present then Inr pub else setitem pub key (JStr []))"

fun fill_keys :: "pystr list \<Rightarrow> json \<Rightarrow> json result" where
  "fill_keys [] pub = Inr pub"
| "fill_keys (key # keys) pub = and_then (fill_key key pub) (fill_keys keys)"

text \<open>
  \<open>for pub in coll: ...\<close>.  The items of a list are changed in place.  The keys of a
  dict and the characters of a string are strings, which cannot be changed: the loop
  raises or leaves the collection as it is.
\<close>

definition normalize_pubs :: "json \<Rightarrow> json result" where
  "normalize_pubs coll =
     (case coll of
        JArr xs \<Rightarrow>
          and_then (map_result (fill_keys (map ascii publication_fields)) xs) (\<lambda>ys. Inr (JArr ys))
      | _ \<Rightarrow>
          and_then (py_iter coll) (\<lambda>xs.
          and_then (map_result (fill_keys (map ascii publication_fields)) xs) (\<lambda>ys. Inr coll)))"

text \<open>
  \<open>for year, pubs in m.items(): for pub in pubs: ...\<close>.
\<close>

definition normalize_years :: "json \<Rightarrow> json result" where
  "normalize_years m =
     and_then (py_items m) (\<lambda>kvs.
     and_then (map_result (\<lambda>kv. and_then (normalize_pubs (snd kv)) (\<lambda>v. Inr (fst kv, v))) kvs)
       (\<lambda>kvs'. Inr (JObj kvs')))"

text \<open>
  \<open>if key not in p: p[key] = dflt\<close>, and the first statement of the function:
  \<open>if 'publications' not in data or not isinstance(data['publications'], dict): ...\<close>.
\<close>

definition ensure_key :: "pystr \<Rightarrow> json \<Rightarrow> json \<Rightarrow> json result" where
  "ensure_key key dflt p =
     and_then (py_in key p) (\<lambda>present. if \<not> present then setitem p key dflt else Inr p)"

definition ensure_publications :: "json \<Rightarrow> json result" where
  "ensure_publications data =
     and_then (py_in (ascii ''publications'') data) (\<lambda>present.
       if \<not> present then setitem data (ascii ''publications'') default_publications
       else and_then (getitem data (ascii ''publications'')) (\<lambda>p.
         if \<not> is_dict p then setitem data (ascii ''publications'') default_publications
         else Inr data))"

text \<open>
  \<open>normalize_publications(data)\<close>, the same function in both files.
\<close>

definition normalize_publications :: "json \<Rightarrow> json result" where
  "normalize_publications data =
     and_then (ensure_publications data) (\<lambda>d1.
     and_then (update_path d1 [ascii ''publications''] (ensure_key (ascii ''under_review'') (JArr []))) (\<lambda>d2.
     and_then (update_path d2 [ascii ''publications''] (ensure_key (ascii ''by_year'') (JObj []))) (\<lambda>d3.
     and_then (update_path d3 [ascii ''publications'', ascii ''under_review''] normalize_pubs) (\<lambda>d4.
     update_path d4 [ascii ''publications'', ascii ''by_year''] normalize_years))))"

text \<open>
  The shape of a normalized record of the publication managers: \<open>publications\<close> with
  the list \<open>under_review\<close> and the year map \<open>by_year\<close>, every publication a dict that has
  the six fields.
\<close>

definition pub_any :: schema where
  "pub_any = SRec (map (\<lambda>k. (k, SAny)) publication_fields)"

definition pm_schema :: schema where
  "pm_schema = SRec
     [(''publications'', SRec
        [(''under_review'', SList pub_any), (''by_year'', SYears (SList pub_any))])]"

definition pm_normalized :: "json \<Rightarrow> bool" where
  "pm_normalized d = conforms pm_schema d"

text \<open>
  A partial record, which the normalization has to tolerate: a dict in which
  \<open>publications\<close>, when it is there and is a dict, has for \<open>under_review\<close> (when that is
  there) a list of dicts and for \<open>by_year\<close> (when that is there) a dict of lists of dicts.
  Sections and fields may be missing.
\<close>

definition dicts_list :: "json \<Rightarrow> bool" where
  "dicts_list u = (case u of JArr xs \<Rightarrow> list_all is_dict xs | _ \<Rightarrow> False)"

definition partial_pubs :: "json \<Rightarrow> bool" where
  "partial_pubs p =
     (case p of
        JObj pd \<Rightarrow>
          (case map_of pd (ascii ''under_review'') of None \<Rightarrow> True | Some u \<Rightarrow> dicts_list u)
          \<and> (case map_of pd (ascii ''by_year'') of
                None \<Rightarrow> True
              | Some (JObj kvs) \<Rightarrow> list_all (\<lambda>kv. dicts_list (snd kv)) kvs
              | Some _ \<Rightarrow> False)
      | _ \<Rightarrow> True)"

definition partial_record :: "json \<Rightarrow> bool" where
  "partial_record r =
     (case r of
        JObj rd \<Rightarrow> (case map_of rd (ascii ''publications'') of None \<Rightarrow> True | Some p \<Rightarrow> partial_pubs p)
      | _ \<Rightarrow> False)"

section \<open>Loading a store\<close>


text \<open>
  cv_builder.py, the loop over the rows of \<open>SELECT filename, content FROM cv_files\<close>:
  the parsed JSON becomes the session's data as it is; a \<open>JSONDecodeError\<close> is reported
  and leaves the data.
\<close>

record session =
  data :: json
  tex_content :: pystr
  sty_content :: pystr

definition load_row :: "(pystr \<Rightarrow> json option) \<Rightarrow> session \<Rightarrow> row \<Rightarrow> session" where
  "load_row loads s r =
     (if filename r = ascii ''cv_data.json'' then
        (case loads (content r) of Some j \<Rightarrow> s\<lparr>data := j\<rparr> | None \<Rightarrow> s)
      else if filename r = ascii ''cv_template.tex'' then s\<lparr>tex_content := content r\<rparr>
      else if filename r = ascii ''cv_style.sty'' then s\<lparr>sty_content := content r\<rparr>
      else s)"

definition load_db :: "(pystr \<Rightarrow> json option) \<Rightarrow> table \<Rightarrow> session \<Rightarrow> session" where
  "load_db loads tbl s = foldl (load_row loads) s tbl"

text \<open>
  publication_manager_updated.py, the loop over the rows of
  \<open>SELECT ... WHERE filename = 'cv_data.json'\<close>: the parsed JSON is normalized and becomes
  the data; a \<open>JSONDecodeError\<close> is reported and leaves the data, another exception of
  the normalization ends the run (publication_manager_mwe.py reports it as well).
\<close>

fun load_publication_rows :: "(pystr \<Rightarrow> json option) \<Rightarrow> table \<Rightarrow> json \<Rightarrow> json result" where
  "load_publication_rows loads [] d = Inr d"
| "load_publication_rows loads (r # rs) d =
     (if filename r = ascii ''cv_data.json'' then
        (case loads (content r) of
           None \<Rightarrow> load_publication_rows loads rs d
         | Some j \<Rightarrow> and_then (normalize_publications j) (load_publication_rows loads rs))
      else load_publication_rows loads rs d)"

definition load_publications :: "(pystr \<Rightarrow> json option) \<Rightarrow> table \<Rightarrow> json \<Rightarrow> json result" where
  "load_publications loads tbl d =
     load_publication_rows loads (rows_for (ascii ''cv_data.json'') tbl) d"

text \<open>
  Examples: \<open>json.loads\<close> on the one text \<open>{}\<close>; the default record of the
  publication managers; a store row with that text; the session of cv_builder.py at its
  start; a partial record and its normal form.
\<close>

definition loads_example :: "pystr \<Rightarrow> json option" where
  "loads_example text = (if text = ascii ''{}'' then Some (JObj []) else None)"

definition default_publication_data :: json where
  "default_publication_data = obj [(''publications'', default_publications), (''last_updated'', JStr [])]"

definition empty_object_row :: row where
  "empty_object_row = \<lparr>filename = ascii ''cv_data.json'', content = ascii ''{}'', created_at = 0\<rparr>"

definition initial_session :: session where
  "initial_session = \<lparr>data = default_data, tex_content = [], sty_content = []\<rparr>"

definition partial_example :: json where
  "partial_example =
     obj [(''publications'', obj [(''under_review'', JArr [obj [(''title'', JStr (ascii ''T''))]])])]"

definition normalized_example :: json where
  "normalized_example =
     obj [(''publications'', obj
       [(''under_review'', JArr [obj [(''title'', JStr (ascii ''T'')), (''authors'', JStr []),
           (''journal'', JStr []), (''url'', JStr []), (''impact_factor'', JStr []),
           (''citations'', JStr [])]]),
        (''by_year'', JObj [])])]"

section \<open>The JSON codec (json.dumps with indent=4, json.loads)\<close>

text \<open>
  The publication managers write the record with \<open>json.dumps(data, indent=4)\<close> and read
  it with \<open>json.loads(content)\<close>.  Both belong to Python's \<open>json\<close> module; what follows
  embeds that module for values built of dicts, lists, strings, booleans and \<open>None\<close>.

  The encoder, with the default \<open>ensure_ascii=True\<close>: a string is written between double
  quotes; the double quote, the backslash, line feed, carriage return, tab, backspace and
  form feed get their two character escape; a printable ASCII character (32 to 126)
  stands for itself; any other code point below 65536 is written as backslash, u and
  four lower case hexadecimal digits, and a code point from 65536 on as the two such
  escapes of its UTF-16 surrogate pair.
\<close>

definition hex_digit :: "nat \<Rightarrow> nat" where
  "hex_digit d = (if d < 10 then 48 + d else 87 + d)"

definition hex4 :: "nat \<Rightarrow> pystr" where
  "hex4 n = [hex_digit (n div 4096 mod 16), hex_digit (n div 256 mod 16),
             hex_digit (n div 16 mod 16), hex_digit (n mod 16)]"

definition u_escape :: "nat \<Rightarrow> pystr" where
  "u_escape n = [92, 117] @ hex4 n"

definition escape_char :: "nat \<Rightarrow> pystr" where
  "escape_char c =
     (if c = 34 then [92, 34]
      else if c = 92 then [92, 92]
      else if c = 10 then [92, 110]
      else if c = 13 then [92, 114]
      else if c = 9 then [92, 116]
      else if c = 8 then [92, 98]
      else if c = 12 then [92, 102]
      else if 32 \<le> c \<and> c \<le> 126 then [c]
      else if c < 65536 then u_escape c
      else u_escape (55296 + (c - 65536) div 1024 mod 1024) @ u_escape (56320 + (c - 65536) mod 1024))"

definition encode_str :: "pystr \<Rightarrow> pystr" where
  "encode_str s = 34 # concat (map escape_char s) @ [34]"








definition hex_value :: "nat \<Rightarrow> nat option" where
  "hex_value c =
     (if 48 \<le> c \<and> c \<le> 57 then Some (c - 48)
      else if 97 \<le> c \<and> c \<le> 102 then Some (c - 87)
      else if 65 \<le> c \<and> c \<le> 70 then Some (c - 55)
      else None)"

fun unhex4 :: "pystr \<Rightarrow> nat option" where
  "unhex4 (a # b # c # d # rest) =
     (case (hex_value a, hex_value b, hex_value c, hex_value d) of
        (Some w, Some x, Some y, Some z) \<Rightarrow> Some (w * 4096 + x * 256 + y * 16 + z)
      | _ \<Rightarrow> None)"
| "unhex4 _ = None"

definition simple_escape :: "nat \<Rightarrow> nat option" where
  "simple_escape e =
     (if e = 34 then Some 34 else if e = 92 then Some 92 else if e = 47 then Some 47
      else if e = 98 then Some 8 else if e = 102 then Some 12 else if e = 110 then Some 10
      else if e = 114 then Some 13 else if e = 116 then Some 9 else None)"

fun scanstring :: "pystr \<Rightarrow> (pystr \<times> pystr) option" where
  "scanstring [] = None"
| "scanstring (c # cs) =
     (if c = 34 then Some ([], cs)
      else if c = 92 then
        (case cs of
           [] \<Rightarrow> None
         | e # es \<Rightarrow>
             if e = 117 then
               (case unhex4 es of
                  None \<Rightarrow> None
                | Some uni \<Rightarrow>
                    if 55296 \<le> uni \<and> uni \<le> 56319 \<and> take 2 (drop 4 es) = [92, 117] then
                      (case unhex4 (drop 6 es) of
                         None \<Rightarrow> None
                       | Some uni2 \<Rightarrow>
                           if 56320 \<le> uni2 \<and> uni2 \<le> 57343 then
                             map_option (\<lambda>r. ((65536 + ((uni - 55296) * 1024 + (uni2 - 56320))) # fst r, snd r))
                               (scanstring (drop 10 es))
                           else map_option (\<lambda>r. (uni # fst r, snd r)) (scanstring (drop 4 es)))
                    else map_option (\<lambda>r. (uni # fst r, snd r)) (scanstring (drop 4 es)))
             else
               (case simple_escape e of
                  None \<Rightarrow> None
                | Some x \<Rightarrow> map_option (\<lambda>r. (x # fst r, snd r)) (scanstring es)))
      else if c < 32 then None
      else map_option (\<lambda>r. (c # fst r, snd r)) (scanstring cs))"



subsection \<open>Values that the codec gives back\<close>

text \<open>
  A string is given back by the decoder when none of its code points exceeds 1114111 and
  no high surrogate in it is directly followed by a low surrogate.  A value is \<open>plain\<close>
  when it holds no number, the keys of each dict are distinct (as they are in a Python
  dict) and all its strings and keys are such strings.
\<close>

definition high_surrogate :: "nat \<Rightarrow> bool" where
  "high_surrogate c = (55296 \<le> c \<and> c \<le> 56319)"

definition low_surrogate :: "nat \<Rightarrow> bool" where
  "low_surrogate c = (56320 \<le> c \<and> c \<le> 57343)"

fun wf_str :: "pystr \<Rightarrow> bool" where
  "wf_str [] = True"
| "wf_str [c] = (c \<le> 1114111)"
| "wf_str (c # d # s) = (c \<le> 1114111 \<and> \<not> (high_surrogate c \<and> low_surrogate d) \<and> wf_str (d # s))"



text \<open>
  For the proofs: the first UTF-16 unit of the escape of a code point, the characters
  with a two character escape, a bound on the nested calls that reading a value takes,
  and the statement that a value is read back from its encoding at every indentation and
  in front of every text.
\<close>

definition first_unit :: "nat \<Rightarrow> nat" where
  "first_unit d = (if d < 65536 then d else 55296 + (d - 65536) div 1024 mod 1024)"

definition simple_char :: "nat \<Rightarrow> bool" where
  "simple_char c = (c = 34 \<or> c = 92 \<or> c = 10 \<or> c = 13 \<or> c = 9 \<or> c = 8 \<or> c = 12)"




section \<open>Properties of the escaping transform\<close>

lemma replace_char_append:
  "replace_char c e (xs @ ys) = replace_char c e xs @ replace_char c e ys"
  by (simp add: replace_char_def)

lemma escape_latex_append:
  "escape_latex (xs @ ys) = escape_latex xs @ escape_latex ys"
  by (simp add: escape_latex_def special_chars_def replace_char_append)

lemma escape_latex_Nil: "escape_latex [] = []"
  by (simp add: escape_latex_def special_chars_def replace_char_def)

lemma escape_latex_single: "escape_latex [x] = chained_char x"
  by (simp add: escape_latex_def special_chars_def replace_char_def chained_char_def
      bsl_def ascii_def)

lemma escape_latex_chained: "escape_latex t = concat (map chained_char t)"
proof (induction t)
  case Nil
  show ?case by (simp add: escape_latex_Nil)
next
  case (Cons x xs)
  have "escape_latex (x # xs) = escape_latex [x] @ escape_latex xs"
    using escape_latex_append [of "[x]" xs] by simp
  with Cons show ?case by (simp add: escape_latex_single)
qed

text \<open>
  C1.  The claim is that every special character of the original text is escaped exactly
  once and that inserted characters are never escaped again.  On the input
  \<open>100% & co_author {x}\<close> the chained replacements give
  \<open>100\textbackslash{}% \textbackslash{}& co\textbackslash{}_author \textbackslash{}{x\textbackslash{}}\<close>:
  the backslash inserted in front of each of \<open>%\<close>, \<open>&\<close>, \<open>_\<close>, \<open>{\<close>, \<open>}\<close> is itself
  replaced by the last replacement of the loop, so that the result differs from the
  single-pass result \<open>100\% \& co\_author \{x\}\<close>.
\<close>

theorem escape_latex_reescapes_backslash:
  "escape_latex (ascii ''100% & co_author {x}'') =
     ascii ''100'' @ bsl @ ascii ''textbackslash{}% '' @ bsl @ ascii ''textbackslash{}& co''
       @ bsl @ ascii ''textbackslash{}_author '' @ bsl @ ascii ''textbackslash{}{x''
       @ bsl @ ascii ''textbackslash{}}''
   \<and> escape_single_pass (ascii ''100% & co_author {x}'') =
     ascii ''100'' @ bsl @ ascii ''% '' @ bsl @ ascii ''& co'' @ bsl @ ascii ''_author ''
       @ bsl @ ascii ''{x'' @ bsl @ ascii ''}''
   \<and> escape_latex (ascii ''100% & co_author {x}'') \<noteq> escape_single_pass (ascii ''100% & co_author {x}'')"
  by (simp add: escape_latex_chained chained_char_def escape_single_pass_def special_chars_def
      bsl_def ascii_def)

section \<open>Properties of the persisted store\<close>

lemma rows_for_insert_or_replace_same:
  "rows_for key (insert_or_replace key text time tbl) =
     [\<lparr>filename = key, content = text, created_at = time\<rparr>]"
  by (simp add: rows_for_def insert_or_replace_def filter_empty_conv)

lemma rows_for_insert_or_replace_other:
  "key' \<noteq> key \<Longrightarrow> rows_for key' (insert_or_replace key text time tbl) = rows_for key' tbl"
  by (auto simp: rows_for_def insert_or_replace_def intro: filter_cong)

lemma pk_unique_insert_or_replace:
  "pk_unique tbl \<Longrightarrow> pk_unique (insert_or_replace key text time tbl)"
  by (auto simp: pk_unique_def insert_or_replace_def distinct_map_filter)

lemma length_insert_or_replace_present:
  assumes "pk_unique tbl" and "key \<in> filename ` set tbl"
  shows "length (insert_or_replace key text time tbl) = length tbl"
proof -
  have "length (filter (\<lambda>r. filename r = key) tbl) = 1"
    using assms unfolding pk_unique_def
  proof (induction tbl)
    case Nil
    then show ?case by simp
  next
    case (Cons r rs)
    show ?case
    proof (cases "filename r = key")
      case True
      with Cons.prems have "key \<notin> filename ` set rs" by auto
      then have "filter (\<lambda>r. filename r = key) rs = []"
        by (auto simp: filter_empty_conv)
      with True show ?thesis by simp
    next
      case False
      with Cons show ?thesis by auto
    qed
  qed
  moreover have "length tbl =
      length (filter (\<lambda>r. filename r = key) tbl) + length (filter (\<lambda>r. filename r \<noteq> key) tbl)"
    using sum_length_filter_compl [of "\<lambda>r. filename r = key" tbl] by simp
  ultimately show ?thesis by (simp add: insert_or_replace_def)
qed

lemma filename_insert_or_replace:
  "filename ` set (insert_or_replace key text time tbl) = insert key (filename ` set tbl)"
  by (auto simp: insert_or_replace_def)

lemma connect_upd: "connect (fs(n \<mapsto> t)) n = t"
  by (simp add: connect_def)

text \<open>
  C9.  The claim as amended: writing \<open>cv_data.json\<close> twice into the same database file
  (two calls of \<open>create_new_db\<close> within the same minute, on a file whose table satisfies
  its primary-key constraint) keeps the primary key unique and leaves exactly one row for
  that key after each write, the second write's row holding the second content and the
  clock reading of the second write; the second write adds no row.  The second
  \<open>created_at\<close> is later than the first exactly when the second reading of the clock is
  later than the first: the code stores \<open>datetime.now()\<close> as it reads it.
\<close>

theorem create_new_db_upsert:
  assumes "pk_unique (connect fs (ascii ''cv'' @ ts @ ascii ''.db''))"
  shows "case create_new_db ts t1 j1 x1 y1 fs of (n1, fs1) \<Rightarrow>
         case create_new_db ts t2 j2 x2 y2 fs1 of (n2, fs2) \<Rightarrow>
           n2 = n1
         \<and> pk_unique (connect fs1 n1) \<and> pk_unique (connect fs2 n2)
         \<and> rows_for (ascii ''cv_data.json'') (connect fs1 n1) =
             [\<lparr>filename = ascii ''cv_data.json'', content = j1, created_at = t1\<rparr>]
         \<and> rows_for (ascii ''cv_data.json'') (connect fs2 n2) =
             [\<lparr>filename = ascii ''cv_data.json'', content = j2, created_at = t2\<rparr>]
         \<and> (created_at (hd (rows_for (ascii ''cv_data.json'') (connect fs1 n1)))
               < created_at (hd (rows_for (ascii ''cv_data.json'') (connect fs2 n2)))
              \<longleftrightarrow> t1 < t2)
         \<and> length (connect fs2 n2) = length (connect fs1 n1)"
proof -
  define n where "n = ascii ''cv'' @ ts @ ascii ''.db''"
  define a where "a = insert_or_replace (ascii ''cv_data.json'') j1 t1 (connect fs n)"
  define b where "b = insert_or_replace (ascii ''cv_template.tex'') x1 t1 a"
  define c where "c = insert_or_replace (ascii ''cv_style.sty'') y1 t1 b"
  define a' where "a' = insert_or_replace (ascii ''cv_data.json'') j2 t2 c"
  define b' where "b' = insert_or_replace (ascii ''cv_template.tex'') x2 t2 a'"
  define c' where "c' = insert_or_replace (ascii ''cv_style.sty'') y2 t2 b'"
  have ne: "ascii ''cv_data.json'' \<noteq> ascii ''cv_template.tex''"
    "ascii ''cv_data.json'' \<noteq> ascii ''cv_style.sty''"
    by (simp_all add: ascii_def)
  have first: "create_new_db ts t1 j1 x1 y1 fs = (n, fs(n \<mapsto> c))"
    by (simp add: create_new_db_def Let_def n_def a_def b_def c_def)
  have second: "create_new_db ts t2 j2 x2 y2 (fs(n \<mapsto> c)) = (n, (fs(n \<mapsto> c))(n \<mapsto> c'))"
    by (simp add: create_new_db_def Let_def n_def [symmetric] connect_upd a'_def b'_def c'_def)
  have pk: "pk_unique a" "pk_unique b" "pk_unique c" "pk_unique a'" "pk_unique b'" "pk_unique c'"
    using assms unfolding n_def [symmetric] a_def b_def c_def a'_def b'_def c'_def
    by (simp_all add: pk_unique_insert_or_replace)
  have r1: "rows_for (ascii ''cv_data.json'') c =
      [\<lparr>filename = ascii ''cv_data.json'', content = j1, created_at = t1\<rparr>]"
    unfolding c_def b_def a_def
    by (simp add: rows_for_insert_or_replace_other ne rows_for_insert_or_replace_same)
  have r2: "rows_for (ascii ''cv_data.json'') c' =
      [\<lparr>filename = ascii ''cv_data.json'', content = j2, created_at = t2\<rparr>]"
    unfolding c'_def b'_def a'_def
    by (simp add: rows_for_insert_or_replace_other ne rows_for_insert_or_replace_same)
  have keys: "ascii ''cv_data.json'' \<in> filename ` set c"
    "ascii ''cv_template.tex'' \<in> filename ` set a'"
    "ascii ''cv_style.sty'' \<in> filename ` set b'"
    unfolding b'_def a'_def c_def b_def a_def
    by (simp_all add: filename_insert_or_replace)
  have len: "length c' = length c"
    unfolding c'_def
    using length_insert_or_replace_present [OF pk(5) keys(3)]
      length_insert_or_replace_present [OF pk(4) keys(2), of x2 t2]
      length_insert_or_replace_present [OF pk(3) keys(1), of j2 t2]
    by (simp add: b'_def a'_def)
  show ?thesis
    using pk(3) pk(6) r1 r2 len
    by (simp add: first second connect_upd)
qed

theorem create_new_db_upsert_witness:
  "pk_unique (connect Map.empty (ascii ''cv'' @ ascii ''202401011200'' @ ascii ''.db''))
   \<and> rows_for (ascii ''cv_data.json'')
        (connect (snd (create_new_db (ascii ''202401011200'') 2 (ascii ''[]'') [] []
           (snd (create_new_db (ascii ''202401011200'') 1 (ascii ''{}'') [] [] Map.empty))))
           (ascii ''cv202401011200.db''))
       = [\<lparr>filename = ascii ''cv_data.json'', content = ascii ''[]'', created_at = 2\<rparr>]"
proof -
  have h: "pk_unique (connect Map.empty (ascii ''cv'' @ ascii ''202401011200'' @ ascii ''.db''))"
    by (simp add: pk_unique_def connect_def)
  have n: "ascii ''cv'' @ ascii ''202401011200'' @ ascii ''.db'' = ascii ''cv202401011200.db''"
    by (simp add: ascii_def)
  show ?thesis
    using create_new_db_upsert [OF h, where ?t1.0 = 1 and ?t2.0 = 2 and ?j1.0 = "ascii ''{}''"
        and ?x1.0 = "[]" and ?y1.0 = "[]" and ?j2.0 = "ascii ''[]''" and ?x2.0 = "[]"
        and ?y2.0 = "[]"] h
    by (simp add: create_new_db_def Let_def n split: prod.splits)
qed

text \<open>
  C9, the claim as stated fails: the second \<open>created_at\<close> need not be later.  Two writes
  that read the same value from the clock (two calls within the resolution of
  \<open>datetime.now()\<close>) store the same \<open>created_at\<close>: the row is replaced, its time stamp is
  not later than the one it replaces.
\<close>

theorem create_new_db_same_clock_reading:
  "rows_for (ascii ''cv_data.json'')
      (connect (snd (create_new_db (ascii ''202401011200'') 5 (ascii ''{}'') [] [] Map.empty))
         (ascii ''cv202401011200.db''))
     = [\<lparr>filename = ascii ''cv_data.json'', content = ascii ''{}'', created_at = 5\<rparr>]
   \<and> rows_for (ascii ''cv_data.json'')
      (connect (snd (create_new_db (ascii ''202401011200'') 5 (ascii ''[]'') [] []
           (snd (create_new_db (ascii ''202401011200'') 5 (ascii ''{}'') [] [] Map.empty))))
         (ascii ''cv202401011200.db''))
     = [\<lparr>filename = ascii ''cv_data.json'', content = ascii ''[]'', created_at = 5\<rparr>]
   \<and> \<not> created_at (hd (rows_for (ascii ''cv_data.json'')
          (connect (snd (create_new_db (ascii ''202401011200'') 5 (ascii ''{}'') [] [] Map.empty))
             (ascii ''cv202401011200.db''))))
        < created_at (hd (rows_for (ascii ''cv_data.json'')
          (connect (snd (create_new_db (ascii ''202401011200'') 5 (ascii ''[]'') [] []
               (snd (create_new_db (ascii ''202401011200'') 5 (ascii ''{}'') [] [] Map.empty))))
             (ascii ''cv202401011200.db''))))"
  by (simp add: create_new_db_def Let_def connect_def insert_or_replace_def rows_for_def ascii_def)

section \<open>Properties of the URL check\<close>

lemmas url_eval = validate_url_def re_match_to_end_def url_regex_def Lit_def Chr_def Opt_def
  Many1_def ascii_def label_char_def word_char_def ascii_word_def

lemma lang_SeqI: "u \<in> lang r \<Longrightarrow> v \<in> lang s \<Longrightarrow> u @ v \<in> lang (Seq r s)"
  by auto

lemma lang_Seq_iff:
  "x \<in> lang (Seq r s) \<longleftrightarrow> (\<exists>u v. x = u @ v \<and> u \<in> lang r \<and> v \<in> lang s)"
  by auto

lemma nullable_lang: "nullable r \<longleftrightarrow> [] \<in> lang r"
  by (induction r) (auto intro: star_nil)

lemma star_cons:
  "c # s \<in> star A \<longleftrightarrow> (\<exists>u v. s = u @ v \<and> c # u \<in> A \<and> v \<in> star A)"
proof
  assume "c # s \<in> star A"
  then show "\<exists>u v. s = u @ v \<and> c # u \<in> A \<and> v \<in> star A"
  proof (induction "c # s" arbitrary: s rule: star.induct)
    case (star_app u v)
    show ?case
    proof (cases u)
      case Nil
      with star_app show ?thesis by simp
    next
      case (Cons a u')
      with star_app.hyps show ?thesis by auto
    qed
  qed
next
  assume "\<exists>u v. s = u @ v \<and> c # u \<in> A \<and> v \<in> star A"
  then obtain u v where "s = u @ v" "c # u \<in> A" "v \<in> star A" by blast
  then show "c # s \<in> star A"
    using star_app [of "c # u" A v] by simp
qed

lemma deriv_lang: "s \<in> lang (deriv c r) \<longleftrightarrow> c # s \<in> lang r"
proof (induction r arbitrary: s)
  case (Seq r1 r2)
  show ?case
  proof
    assume "s \<in> lang (deriv c (Seq r1 r2))"
    then consider (l) u v where "s = u @ v" "u \<in> lang (deriv c r1)" "v \<in> lang r2"
      | (r) "nullable r1" "s \<in> lang (deriv c r2)"
      by (auto split: if_splits)
    then show "c # s \<in> lang (Seq r1 r2)"
    proof cases
      case l
      then have "c # u \<in> lang r1" using Seq.IH(1) by simp
      with l show ?thesis using lang_SeqI [of "c # u" r1 v r2] by simp
    next
      case r
      then have "[] \<in> lang r1" "c # s \<in> lang r2"
        using Seq.IH(2) by (simp_all add: nullable_lang)
      then show ?thesis using lang_SeqI [of "[]" r1 "c # s" r2] by simp
    qed
  next
    assume "c # s \<in> lang (Seq r1 r2)"
    then obtain u v where uv: "c # s = u @ v" "u \<in> lang r1" "v \<in> lang r2" by auto
    show "s \<in> lang (deriv c (Seq r1 r2))"
    proof (cases u)
      case Nil
      with uv have "nullable r1" "s \<in> lang (deriv c r2)"
        using Seq.IH(2) by (simp_all add: nullable_lang)
      then show ?thesis by simp
    next
      case (Cons a u')
      with uv have "s = u' @ v" "u' \<in> lang (deriv c r1)"
        using Seq.IH(1) by simp_all
      with uv(3) show ?thesis by auto
    qed
  qed
next
  case (Rep r)
  show ?case
    using Rep.IH by (auto simp: star_cons)
qed auto

lemma matches_lang: "matches r s \<longleftrightarrow> s \<in> lang r"
  by (induction s arbitrary: r) (simp_all add: nullable_lang deriv_lang)

lemma lang_Chr: "lang (Chr c) = {[c]}"
  by (auto simp: Chr_def)

lemma Lit_Cons: "Lit (c # s) = Seq (Chr c) (Lit s)"
  by (simp add: Lit_def)

lemma lang_Lit: "lang (Lit s) = {s}"
proof (induction s)
  case Nil
  show ?case by (simp add: Lit_def)
next
  case (Cons c s)
  then show ?case by (auto simp: Lit_Cons lang_Chr)
qed

lemma lang_Opt: "lang (Opt r) = insert [] (lang r)"
  by (auto simp: Opt_def)

lemma star_all:
  assumes "v \<in> star A" and "\<And>u. u \<in> A \<Longrightarrow> list_all q u"
  shows "list_all q v"
  using assms by (induction rule: star.induct) auto

lemma star_Chars: "star {[c] | c. p c} = {s. list_all p s}"
proof (rule set_eqI, rule iffI)
  fix s assume "s \<in> star {[c] | c. p c}"
  then have "list_all p s" by (rule star_all) auto
  then show "s \<in> {s. list_all p s}" by simp
next
  fix s assume "s \<in> {s. list_all p s}"
  then have "list_all p s" by simp
  then show "s \<in> star {[c] | c. p c}"
  proof (induction s)
    case Nil
    show ?case by (rule star_nil)
  next
    case (Cons a s)
    then have "[a] \<in> {[c] | c. p c}" "s \<in> star {[c] | c. p c}" by auto
    then have "[a] @ s \<in> star {[c] | c. p c}" by (rule star_app)
    then show ?case by simp
  qed
qed

lemma lang_Rep_Chars: "lang (Rep (Chars p)) = {s. list_all p s}"
  by (simp add: star_Chars)

lemma lang_Many1_Chars: "lang (Many1 (Chars p)) = {s. s \<noteq> [] \<and> list_all p s}"
proof (rule set_eqI, rule iffI)
  fix s assume "s \<in> lang (Many1 (Chars p))"
  then show "s \<in> {s. s \<noteq> [] \<and> list_all p s}"
    by (auto simp: Many1_def star_Chars)
next
  fix s assume "s \<in> {s. s \<noteq> [] \<and> list_all p s}"
  then obtain a t where "s = [a] @ t" "p a" "list_all p t" by (cases s) auto
  then show "s \<in> lang (Many1 (Chars p))"
    unfolding Many1_def using lang_SeqI [of "[a]" "Chars p" t "Rep (Chars p)"]
    by (simp add: star_Chars)
qed

lemma lang_scheme:
  "lang (Opt (Seq (Lit (ascii ''http'')) (Seq (Opt (Chr (of_char CHR ''s''))) (Lit (ascii ''://''))))) = schemes"
  by (auto simp: lang_Opt lang_Lit lang_Chr schemes_def ascii_def)

lemma label_char_nl: "\<not> label_char uw 10"
  by (simp add: label_char_def word_char_def ascii_word_def)

lemma lang_dot_label:
  "lang (dot_label uw) = {46 # l | l. l \<noteq> [] \<and> list_all (label_char uw) l}"
  by (auto simp: dot_label_def lang_Chr lang_Many1_Chars)

lemma lang_tail_rx: "lang tail_rx = {s. 10 \<notin> set s}"
proof (rule set_eqI, rule iffI)
  fix s assume "s \<in> lang tail_rx"
  then show "s \<in> {s. 10 \<notin> set s}"
    by (auto simp: tail_rx_def lang_Opt star_Chars list_all_iff)
next
  fix s :: pystr assume "s \<in> {s. 10 \<notin> set s}"
  then have "s \<in> lang (Rep (Chars (\<lambda>c. c \<noteq> 10)))"
    by (auto simp: star_Chars list_all_iff)
  then show "s \<in> lang tail_rx"
    unfolding tail_rx_def
    using lang_SeqI [of "[]" "Opt (Chars (\<lambda>c. c = of_char CHR ''/'' \<or> c = of_char CHR ''#'' \<or> c = of_char CHR ''?''))"
        s "Rep (Chars (\<lambda>c. c \<noteq> 10))"]
    by (simp add: lang_Opt)
qed

lemma dot_label_no_nl:
  assumes "u \<in> lang (dot_label uw)"
  shows "list_all (\<lambda>x. x \<noteq> 10) u"
proof -
  from assms obtain l where "u = 46 # l" "list_all (label_char uw) l"
    by (auto simp: lang_dot_label)
  then show ?thesis
    using label_char_nl [of uw] by (auto simp: list_all_iff)
qed

lemma lang_dots_tail:
  "x \<in> lang (Seq (Many1 (dot_label uw)) tail_rx) \<longleftrightarrow>
     (\<exists>c rest. x = 46 # c # rest \<and> label_char uw c \<and> 10 \<notin> set rest)"
proof
  assume "x \<in> lang (Seq (Many1 (dot_label uw)) tail_rx)"
  then obtain g1 g2 t where x: "x = (g1 @ g2) @ t" and g1: "g1 \<in> lang (dot_label uw)"
    and g2: "g2 \<in> star (lang (dot_label uw))" and t: "10 \<notin> set t"
    using lang_tail_rx by (auto simp: Many1_def)
  from g1 obtain c l where l: "g1 = 46 # c # l" "label_char uw c" "list_all (label_char uw) l"
    by (cases "tl g1") (auto simp: lang_dot_label)
  have "list_all (\<lambda>x. x \<noteq> 10) g2"
    using g2 by (rule star_all) (rule dot_label_no_nl)
  moreover have "10 \<notin> set l"
    using l(3) label_char_nl [of uw] by (auto simp: list_all_iff)
  ultimately have "10 \<notin> set (l @ g2 @ t)"
    using t by (auto simp: list_all_iff)
  with x l show "\<exists>c rest. x = 46 # c # rest \<and> label_char uw c \<and> 10 \<notin> set rest"
    by auto
next
  assume "\<exists>c rest. x = 46 # c # rest \<and> label_char uw c \<and> 10 \<notin> set rest"
  then obtain c rest where x: "x = 46 # c # rest" "label_char uw c" "10 \<notin> set rest" by blast
  have "[46, c] \<in> lang (dot_label uw)"
    using x(2) by (simp add: lang_dot_label)
  then have "[46, c] @ [] \<in> lang (Many1 (dot_label uw))"
    unfolding Many1_def by (intro lang_SeqI) (simp_all add: star_nil)
  moreover have "rest \<in> lang tail_rx"
    using x(3) by (simp add: lang_tail_rx)
  ultimately have "([46, c] @ []) @ rest \<in> lang (Seq (Many1 (dot_label uw)) tail_rx)"
    by (rule lang_SeqI)
  with x(1) show "x \<in> lang (Seq (Many1 (dot_label uw)) tail_rx)" by simp
qed

lemma url_regex_parts:
  "url_regex uw =
     Seq (Opt (Seq (Lit (ascii ''http'')) (Seq (Opt (Chr (of_char CHR ''s''))) (Lit (ascii ''://'')))))
       (Seq (Many1 (Chars (label_char uw))) (Seq (Many1 (dot_label uw)) tail_rx))"
  by (simp add: url_regex_def dot_label_def tail_rx_def)

lemma lang_url_regex: "s \<in> lang (url_regex uw) \<longleftrightarrow> url_form uw s"
proof
  assume "s \<in> lang (url_regex uw)"
  then obtain p y where py: "s = p @ y" "p \<in> schemes"
    "y \<in> lang (Seq (Many1 (Chars (label_char uw))) (Seq (Many1 (dot_label uw)) tail_rx))"
    unfolding url_regex_parts lang_Seq_iff lang_scheme by blast
  from py(3) obtain l x where "y = l @ x" "l \<in> lang (Many1 (Chars (label_char uw)))"
    "x \<in> lang (Seq (Many1 (dot_label uw)) tail_rx)"
    unfolding lang_Seq_iff [of y] by blast
  with py have "s = p @ l @ x" "p \<in> schemes" "l \<in> lang (Many1 (Chars (label_char uw)))"
    "x \<in> lang (Seq (Many1 (dot_label uw)) tail_rx)"
    by simp_all
  then show "url_form uw s"
    unfolding url_form_def lang_dots_tail lang_Many1_Chars by blast
next
  assume "url_form uw s"
  then obtain p l c rest where s: "s = p @ l @ 46 # c # rest" and p: "p \<in> schemes"
    and l: "l \<noteq> []" "list_all (label_char uw) l" and c: "label_char uw c" "10 \<notin> set rest"
    unfolding url_form_def by blast
  have "46 # c # rest \<in> lang (Seq (Many1 (dot_label uw)) tail_rx)"
    unfolding lang_dots_tail using c by blast
  moreover have "l \<in> lang (Many1 (Chars (label_char uw)))"
    using l by (simp add: lang_Many1_Chars)
  ultimately have "l @ 46 # c # rest \<in> lang (Seq (Many1 (Chars (label_char uw))) (Seq (Many1 (dot_label uw)) tail_rx))"
    by (rule lang_SeqI [rotated])
  moreover have "p \<in> lang (Opt (Seq (Lit (ascii ''http'')) (Seq (Opt (Chr (of_char CHR ''s''))) (Lit (ascii ''://'')))))"
    using p by (simp only: lang_scheme)
  ultimately show "s \<in> lang (url_regex uw)"
    unfolding url_regex_parts s by (rule lang_SeqI [rotated])
qed

lemma validate_url_iff:
  "validate_url uw s \<longleftrightarrow>
     s = [] \<or> url_form uw s \<or> (s \<noteq> [] \<and> last s = 10 \<and> url_form uw (butlast s))"
  by (auto simp: validate_url_def re_match_to_end_def matches_lang lang_url_regex)

lemma join_dots_no_nl:
  "\<forall>l\<in>set ls. list_all (label_char uw) l \<Longrightarrow> 10 \<notin> set (join_dots ls)"
proof (induction ls rule: join_dots.induct)
  case 1
  show ?case by simp
next
  case (2 l)
  then show ?case using label_char_nl [of uw] by (auto simp: list_all_iff)
next
  case (3 l k ks)
  then show ?case using label_char_nl [of uw] by (auto simp: list_all_iff)
qed

lemma url_form_host:
  assumes "p \<in> schemes" and "2 \<le> length labels"
    and "\<forall>l\<in>set labels. l \<noteq> [] \<and> list_all (label_char uw) l"
    and "10 \<notin> set rest"
  shows "url_form uw (p @ join_dots labels @ rest)"
proof -
  from assms(2) obtain l1 l2 ls where labels: "labels = l1 # l2 # ls"
    by (cases labels; cases "tl labels") auto
  with assms(3) obtain c l2' where l2: "l2 = c # l2'" by (cases l2) auto
  have l1: "l1 \<noteq> []" "list_all (label_char uw) l1" and c: "label_char uw c"
    using assms(3) labels l2 by auto
  have "10 \<notin> set (join_dots (l2 # ls))"
    using assms(3) labels by (intro join_dots_no_nl) auto
  then have "10 \<notin> set (tl (join_dots (l2 # ls)) @ rest)"
    using assms(4) l2 by (cases ls) auto
  moreover have "p @ join_dots labels @ rest = p @ l1 @ 46 # c # (tl (join_dots (l2 # ls)) @ rest)"
    using labels l2 by (cases ls) auto
  ultimately show ?thesis
    unfolding url_form_def using assms(1) l1 c by blast
qed

lemma validate_url_host:
  assumes "p \<in> schemes" and "2 \<le> length labels"
    and "\<forall>l\<in>set labels. l \<noteq> [] \<and> list_all (label_char uw) l"
    and "10 \<notin> set (butlast rest)"
  shows "validate_url uw (p @ join_dots labels @ rest)"
proof (cases "10 \<in> set rest")
  case False
  then show ?thesis
    using url_form_host [OF assms(1-3)] by (simp add: validate_url_iff)
next
  case True
  then have ne: "rest \<noteq> []" by auto
  with True assms(4) have "last rest = 10"
    using append_butlast_last_id [of rest] by (metis Un_iff empty_iff empty_set insert_iff list.simps(15) set_append)
  moreover have "butlast (p @ join_dots labels @ rest) = p @ join_dots labels @ butlast rest"
    using ne by (simp add: butlast_append)
  ultimately show ?thesis
    using url_form_host [OF assms(1-3), of "butlast rest"] assms(4) ne
    by (simp add: validate_url_iff)
qed

text \<open>
  The check is monotone in the table of non-ASCII word characters: what a part of the
  table lets through, the whole table lets through.  A rejection that holds for every
  table holds for Python's.
\<close>

lemma label_char_mono:
  "\<forall>c. uw c \<longrightarrow> uw' c \<Longrightarrow> label_char uw c \<Longrightarrow> label_char uw' c"
  by (simp add: label_char_def word_char_def split: if_splits)

lemma url_form_mono:
  assumes "\<forall>c. uw c \<longrightarrow> uw' c" and "url_form uw s"
  shows "url_form uw' s"
proof -
  from assms(2) obtain p l c rest where
    f: "s = p @ l @ 46 # c # rest" "p \<in> schemes" "l \<noteq> []" "list_all (label_char uw) l"
    "label_char uw c" "10 \<notin> set rest"
    unfolding url_form_def by blast
  have "label_char uw' x" if "label_char uw x" for x
    using assms(1) that by (rule label_char_mono)
  then have "list_all (label_char uw') l" "label_char uw' c"
    using f(4,5) by (simp_all add: list_all_iff)
  with f(1,2,3,6) show ?thesis
    unfolding url_form_def by blast
qed

lemma validate_url_mono:
  assumes "\<forall>c. uw c \<longrightarrow> uw' c" and "validate_url uw s"
  shows "validate_url uw' s"
proof -
  from assms(2) consider "s = []" | "url_form uw s" | "s \<noteq> []" "last s = 10" "url_form uw (butlast s)"
    unfolding validate_url_iff by blast
  then show ?thesis
  proof cases
    case 1
    then show ?thesis by (simp add: validate_url_def)
  next
    case 2
    from url_form_mono [OF assms(1) this] show ?thesis by (simp add: validate_url_iff)
  next
    case 3
    from url_form_mono [OF assms(1) 3(3)] 3(1,2) show ?thesis by (simp add: validate_url_iff)
  qed
qed

lemma line_feed_inside_rejected:
  "\<not> validate_url uw (ascii ''example.com'' @ [10] @ ascii ''x'')"
  by (simp add: url_eval)

text \<open>
  C4.  The claim as amended: \<open>validate_url\<close> accepts the empty string,
  \<open>https://example.com/page\<close> and \<open>example.org\<close>, rejects \<open>not a url\<close> and \<open>http://\<close>, and
  accepts a non-empty string exactly when the string, or the string without a final line
  feed, has the shape \<open>url_form\<close>: an optional \<open>http://\<close> or \<open>https://\<close>, a non-empty run of
  label characters, a dot and a label character, then characters other than the line feed.
  Every other string is rejected.  A label character is a hyphen or a word character of
  \<open>\w\<close>, which from code point 128 on is whatever the Unicode table \<open>uw\<close> admits.
\<close>

theorem validate_url_shape:
  "validate_url uw []
   \<and> validate_url uw (ascii ''https://example.com/page'')
   \<and> validate_url uw (ascii ''example.org'')
   \<and> \<not> validate_url uw (ascii ''not a url'')
   \<and> \<not> validate_url uw (ascii ''http://'')
   \<and> (\<forall>s. validate_url uw s \<longleftrightarrow>
          s = [] \<or> url_form uw s \<or> (s \<noteq> [] \<and> last s = 10 \<and> url_form uw (butlast s)))"
proof -
  have "\<forall>s. validate_url uw s \<longleftrightarrow>
          s = [] \<or> url_form uw s \<or> (s \<noteq> [] \<and> last s = 10 \<and> url_form uw (butlast s))"
    using validate_url_iff by blast
  moreover have "validate_url uw []"
    by (simp add: validate_url_def)
  moreover have "validate_url uw (ascii ''https://example.com/page'')"
    by (simp add: url_eval)
  moreover have "validate_url uw (ascii ''example.org'')"
    by (simp add: url_eval)
  moreover have "\<not> validate_url uw (ascii ''not a url'')"
    by (simp add: url_eval)
  moreover have "\<not> validate_url uw (ascii ''http://'')"
    by (simp add: url_eval)
  ultimately show ?thesis by blast
qed

theorem validate_url_shape_witness:
  "validate_url uw_latin1 (ascii ''example.org'') \<and> url_form uw_latin1 (ascii ''example.org'')"
proof -
  have "ascii ''example.org'' \<noteq> []" "last (ascii ''example.org'') \<noteq> 10"
    by (simp_all add: ascii_def)
  then show ?thesis
    using validate_url_shape [of uw_latin1] by blast
qed

text \<open>
  C4, the claim as stated fails: a host with a non-ASCII letter is accepted.  U+00E9
  (233, e with acute accent) is a letter, which \<open>\w\<close> matches, so \<open>caf\<close> U+00E9 \<open>.com\<close>
  passes the check.
\<close>

theorem validate_url_non_ascii_host_accepted:
  "validate_url uw_latin1 (ascii ''caf'' @ [233] @ ascii ''.com'')"
  by (simp add: url_eval uw_latin1_def)

text \<open>
  C10.  The claim as amended: \<open>example.com not a url\<close> is accepted, and so is every string
  made of an optional \<open>http://\<close> or \<open>https://\<close>, at least two non-empty labels joined by
  dots, and any further characters among which no line feed occurs except possibly as the
  last character of the string.
\<close>

theorem validate_url_prefix:
  "validate_url uw (ascii ''example.com not a url'')
   \<and> (p \<in> schemes \<and> 2 \<le> length labels
        \<and> (\<forall>l\<in>set labels. l \<noteq> [] \<and> list_all (label_char uw) l)
        \<and> 10 \<notin> set (butlast rest)
      \<longrightarrow> validate_url uw (p @ join_dots labels @ rest))"
proof -
  have "validate_url uw (ascii ''example.com not a url'')"
    by (simp add: url_eval)
  then show ?thesis
    using validate_url_host [of p labels uw rest] by blast
qed

theorem validate_url_prefix_witness:
  "validate_url uw_latin1 (ascii ''https://'' @ join_dots [ascii ''example'', ascii ''com''] @ ascii '' not a url'')"
proof -
  have "ascii ''https://'' \<in> schemes" by (simp add: schemes_def)
  moreover have "2 \<le> length [ascii ''example'', ascii ''com'']" by simp
  moreover have "\<forall>l\<in>set [ascii ''example'', ascii ''com'']. l \<noteq> [] \<and> list_all (label_char uw_latin1) l"
    by (simp add: ascii_def label_char_def word_char_def ascii_word_def)
  moreover have "10 \<notin> set (butlast (ascii '' not a url''))"
    by (simp add: ascii_def)
  ultimately show ?thesis
    using validate_url_prefix [of uw_latin1 "ascii ''https://''" "[ascii ''example'', ascii ''com'']" "ascii '' not a url''"]
    by blast
qed

text \<open>
  C10, the claim as stated fails: what follows the dotted host matters.  The dot of the
  pattern does not match a line feed and \<open>$\<close> only admits one at the very end, so
  \<open>example.com\<close>, a line feed, \<open>x\<close> is rejected.
\<close>

theorem validate_url_line_feed_rejected:
  "\<not> validate_url uw_latin1 (ascii ''example.com'' @ [10] @ ascii ''x'')"
  by (simp add: url_eval uw_latin1_def)

section \<open>Properties of the validator and of the editing operations\<close>


lemmas schema_eval = cv_normalized_def cv_schema_def strs_def publication_fields_def

lemma conforms_getitem:
  assumes "conforms (SRec fs) j" and "map_of fs k = Some t"
  shows "\<exists>v. getitem j (ascii k) = Inr v \<and> conforms t v"
proof -
  from assms(2) have "(k, t) \<in> set fs" by (rule map_of_SomeD)
  with assms(1) show ?thesis
    by (cases j) (auto simp: list_all_iff split: option.splits)
qed

lemma conforms_getpath:
  "conforms s j \<Longrightarrow> schema_at s p = Some t \<Longrightarrow> \<exists>v. getpath j (map ascii p) = Inr v \<and> conforms t v"
proof (induction p arbitrary: s j)
  case Nil
  then show ?case by simp
next
  case (Cons k ks)
  from Cons.prems(2) obtain fs u where s: "s = SRec fs" "map_of fs k = Some u" "schema_at u ks = Some t"
    by (cases s) (auto split: option.splits)
  from conforms_getitem [OF Cons.prems(1) [unfolded s(1)] s(2)] obtain v where
    v: "getitem j (ascii k) = Inr v" "conforms u v" by blast
  from Cons.IH [OF v(2) s(3)] v(1) show ?case by (simp add: and_then_def)
qed


lemma conforms_SList: "conforms (SList t) v \<Longrightarrow> \<exists>xs. v = JArr xs \<and> list_all (conforms t) xs"
  by (cases v) auto

lemma conforms_SYears:
  "conforms (SYears t) v \<Longrightarrow> \<exists>d. v = JObj d \<and> list_all (\<lambda>kv. conforms t (snd kv)) d"
  by (cases v) auto





lemma map_of_dict_set: "map_of (dict_set k v d) k' = (if k' = k then Some v else map_of d k')"
  by (induction d) auto

lemma dict_set_same: "map_of d k = Some v \<Longrightarrow> dict_set k v d = d"
  by (induction d) (auto split: if_splits)

lemma dict_set_twice: "dict_set k v (dict_set k v' d) = dict_set k v d"
  by (induction d) auto

lemma keys_dict_set: "fst ` set (dict_set k v d) = insert k (fst ` set d)"
proof (induction d)
  case Nil
  show ?case by simp
next
  case (Cons kv d)
  then show ?case by (cases kv) (simp add: insert_commute)
qed

lemma getitem_Inr: "getitem j k = Inr v \<Longrightarrow> \<exists>d. j = JObj d \<and> map_of d k = Some v"
  by (cases j) (auto split: option.splits)

lemma and_then_Inr: "and_then m f = Inr y \<longleftrightarrow> (\<exists>x. m = Inr x \<and> f x = Inr y)"
  by (cases m) (auto simp: and_then_def)

lemma update_path_reaches:
  "update_path d p f = Inr d' \<Longrightarrow> \<exists>x x'. getpath d p = Inr x \<and> f x = Inr x' \<and> getpath d' p = Inr x'"
proof (induction p arbitrary: d d')
  case Nil
  then show ?case by simp
next
  case (Cons k ks)
  from Cons.prems obtain sub sub' where s: "getitem d k = Inr sub" "update_path sub ks f = Inr sub'"
    "setitem d k sub' = Inr d'"
    by (auto simp: and_then_Inr)
  from s(1) obtain m where m: "d = JObj m" using getitem_Inr by blast
  with s(3) have "getitem d' k = Inr sub'" by (auto simp: map_of_dict_set)
  with Cons.IH [OF s(2)] s(1) show ?case by (auto simp: and_then_def)
qed

lemma update_path_elsewhere:
  "update_path d p f = Inr d' \<Longrightarrow> diverge p q \<Longrightarrow> getpath d' q = getpath d q"
proof (induction p arbitrary: d d' q)
  case Nil
  then show ?case by simp
next
  case (Cons k ks)
  from Cons.prems(2) obtain k' qs where q: "q = k' # qs" by (cases q) auto
  from Cons.prems(1) obtain sub sub' where s: "getitem d k = Inr sub" "update_path sub ks f = Inr sub'"
    "setitem d k sub' = Inr d'"
    by (auto simp: and_then_Inr)
  from s(1) obtain m where m: "d = JObj m" using getitem_Inr by blast
  with s(3) have d': "d' = JObj (dict_set k sub' m)" by simp
  show ?case
  proof (cases "k' = k")
    case True
    with Cons.prems(2) q have "diverge ks qs" by simp
    from Cons.IH [OF s(2) this] s(1) True show ?thesis
      by (simp add: q d' map_of_dict_set and_then_def m)
  next
    case False
    then show ?thesis by (simp add: q d' m map_of_dict_set)
  qed
qed

lemma update_path_twice:
  "update_path d p f = Inr d1 \<Longrightarrow> update_path d1 p g = update_path d p (\<lambda>x. and_then (f x) g)"
proof (induction p arbitrary: d d1)
  case Nil
  then show ?case by (simp add: and_then_def)
next
  case (Cons k ks)
  from Cons.prems obtain sub sub' where s: "getitem d k = Inr sub" "update_path sub ks f = Inr sub'"
    "setitem d k sub' = Inr d1"
    by (auto simp: and_then_Inr)
  from s(1) obtain m where m: "d = JObj m" using getitem_Inr by blast
  with s(3) have d1: "d1 = JObj (dict_set k sub' m)" by simp
  have "update_path sub' ks g = update_path sub ks (\<lambda>x. and_then (f x) g)"
    using Cons.IH [OF s(2)] .
  then show ?case
    using s(1) by (simp add: d1 m map_of_dict_set and_then_def dict_set_twice split: sum.splits)
qed

lemma update_path_cong:
  "getpath d p = Inr x \<Longrightarrow> f x = g x \<Longrightarrow> update_path d p f = update_path d p g"
proof (induction p arbitrary: d)
  case Nil
  then show ?case by simp
next
  case (Cons k ks)
  then show ?case by (auto simp: and_then_def split: sum.splits)
qed

lemma update_path_id: "getpath d p = Inr x \<Longrightarrow> update_path d p Inr = Inr d"
proof (induction p arbitrary: d)
  case Nil
  then show ?case by simp
next
  case (Cons k ks)
  from Cons.prems obtain sub where s: "getitem d k = Inr sub" "getpath sub ks = Inr x"
    by (auto simp: and_then_Inr)
  from s(1) obtain m where m: "d = JObj m" "map_of m k = Some sub" using getitem_Inr by blast
  from Cons.IH [OF s(2)] show ?case
    using s(1) m by (simp add: and_then_def dict_set_same)
qed











lemma update_path_succeeds:
  "getpath d p = Inr x \<Longrightarrow> f x = Inr x' \<Longrightarrow> \<exists>d'. update_path d p f = Inr d'"
proof (induction p arbitrary: d)
  case Nil
  then show ?case by simp
next
  case (Cons k ks)
  from Cons.prems obtain sub where s: "getitem d k = Inr sub" "getpath sub ks = Inr x"
    by (auto simp: and_then_Inr)
  from s(1) obtain m where m: "d = JObj m" using getitem_Inr by blast
  from Cons.IH [OF s(2) Cons.prems(2)] obtain sub' where "update_path sub ks f = Inr sub'" by blast
  with s(1) m show ?case by (simp add: and_then_def)
qed

lemma update_path_append:
  "update_path d (p @ q) f = update_path d p (\<lambda>x. update_path x q f)"
  by (induction p arbitrary: d) (simp_all add: and_then_def split: sum.splits)

lemma list_append_Inr: "list_append item x = Inr x' \<Longrightarrow> \<exists>xs. x = JArr xs \<and> x' = JArr (xs @ [item])"
  by (cases x) auto

lemma add_then_remove_plain:
  assumes "apply_action ud (AddItem c) d = Inr d1"
  shows "apply_action ud (RemoveItem c (coll_len c d)) d1 = Inr d \<and> coll_len c d1 = Suc (coll_len c d)"
proof -
  define p where "p = map ascii (coll_path c)"
  from assms have upd: "update_path d p (list_append (new_item c)) = Inr d1"
    by (simp add: p_def)
  from update_path_reaches [OF upd] list_append_Inr obtain xs where
    xs: "getpath d p = Inr (JArr xs)" "getpath d1 p = Inr (JArr (xs @ [new_item c]))"
    by blast
  have len: "coll_len c d = length xs" "coll_len c d1 = Suc (length xs)"
    using xs by (simp_all add: coll_len_def p_def [symmetric])
  have "update_path d1 p (list_pop (length xs)) =
      update_path d p (\<lambda>x. and_then (list_append (new_item c) x) (list_pop (length xs)))"
    by (rule update_path_twice [OF upd])
  also have "\<dots> = update_path d p Inr"
    by (rule update_path_cong [OF xs(1)]) (simp add: and_then_def)
  also have "\<dots> = Inr d"
    by (rule update_path_id [OF xs(1)])
  finally show ?thesis
    using len by (simp add: p_def)
qed

lemma add_to_year_Inr:
  assumes "add_to_year y item m = Inr m'"
  shows "\<exists>md xs. m = JObj md \<and> (map_of md y = None \<and> xs = [] \<or> map_of md y = Some (JArr xs))
           \<and> m' = JObj (dict_set y (JArr (xs @ [item])) md)"
proof (cases m)
  case (JObj md)
  show ?thesis
  proof (cases "map_of md y")
    case None
    then have "y \<notin> fst ` set md" by (simp add: map_of_eq_None_iff)
    with assms JObj have "m' = JObj (dict_set y (JArr ([] @ [item])) md)"
      by (simp add: add_to_year_def and_then_def map_of_dict_set dict_set_twice)
    with JObj None show ?thesis by blast
  next
    case (Some b)
    then have "y \<in> fst ` set md" by (metis map_of_eq_None_iff option.distinct(1))
    with assms JObj Some have "and_then (list_append item b) (\<lambda>b'. setitem m y b') = Inr m'"
      by (simp add: add_to_year_def and_then_def split: sum.splits)
    then obtain b' where b': "list_append item b = Inr b'" "setitem m y b' = Inr m'"
      by (auto simp: and_then_Inr)
    from list_append_Inr [OF b'(1)] obtain xs where "b = JArr xs" "b' = JArr (xs @ [item])" by blast
    with b'(2) JObj Some show ?thesis by auto
  qed
qed (use assms in \<open>auto simp: add_to_year_def and_then_def split: if_splits\<close>)

lemma map_of_dict_del: "map_of (dict_del k d) k' = (if k' = k then None else map_of d k')"
  by (induction d) (auto simp: dict_del_def)

lemma keys_dict_del: "fst ` set (dict_del k d) = fst ` set d - {k}"
  by (auto simp: dict_del_def)

lemma remove_after_add:
  "remove_from_year y (length xs) (JObj (dict_set y (JArr (xs @ [item])) md)) =
     Inr (if xs \<noteq> [] then JObj (dict_set y (JArr xs) md)
          else JObj (dict_del y (dict_set y (JArr []) md)))"
  by (simp add: remove_from_year_def and_then_def map_of_dict_set dict_set_twice keys_dict_set)

lemma year_buckets_eq:
  "getpath d (map ascii (year_path yc)) = Inr (JObj m) \<Longrightarrow> year_buckets yc d = m"
  by (simp add: year_buckets_def)

lemma add_then_remove_year:
  assumes "year \<noteq> []" and "isdigit ud year"
    and "apply_action ud (AddYearItem yc year) d = Inr d1"
  shows "\<exists>d2. apply_action ud (RemoveYearItem yc year (bucket_len yc year d)) d1 = Inr d2
           \<and> bucket_len yc year d1 = Suc (bucket_len yc year d)
           \<and> bucket_len yc year d2 = bucket_len yc year d
           \<and> (bucket_len yc year d = 0 \<longrightarrow> year \<notin> year_keys yc d2)
           \<and> (bucket_len yc year d \<noteq> 0 \<longrightarrow> d2 = d)"
proof -
  define p where "p = map ascii (year_path yc)"
  define item where "item = new_year_item yc"
  from assms have upd: "update_path d p (add_to_year year item) = Inr d1"
    by (simp add: p_def item_def)
  from update_path_reaches [OF upd] obtain m m' where
    m: "getpath d p = Inr m" "add_to_year year item m = Inr m'" "getpath d1 p = Inr m'"
    by blast
  from add_to_year_Inr [OF m(2)] obtain md xs where
    md: "m = JObj md" "map_of md year = None \<and> xs = [] \<or> map_of md year = Some (JArr xs)"
    "m' = JObj (dict_set year (JArr (xs @ [item])) md)"
    by blast
  define m2 where "m2 = (if xs \<noteq> [] then JObj (dict_set year (JArr xs) md)
          else JObj (dict_del year (dict_set year (JArr []) md)))"
  have len0: "bucket_len yc year d = length xs"
    using m(1) md(1,2) by (auto simp: bucket_len_def year_buckets_def p_def [symmetric])
  have len1: "bucket_len yc year d1 = Suc (length xs)"
    using m(3) md(3) by (simp add: bucket_len_def year_buckets_def p_def [symmetric] map_of_dict_set)
  have "update_path d1 p (remove_from_year year (length xs)) =
      update_path d p (\<lambda>x. and_then (add_to_year year item x) (remove_from_year year (length xs)))"
    by (rule update_path_twice [OF upd])
  also have "\<dots> = update_path d p (\<lambda>x. Inr m2)"
    by (rule update_path_cong [OF m(1)])
      (simp add: m(2) and_then_def md(3) remove_after_add m2_def)
  finally have rem: "update_path d1 p (remove_from_year year (length xs)) = update_path d p (\<lambda>x. Inr m2)" .
  from update_path_succeeds [OF m(1), of "\<lambda>x. Inr m2" m2] obtain d2 where
    d2: "update_path d p (\<lambda>x. Inr m2) = Inr d2" by auto
  from update_path_reaches [OF d2] have g2: "getpath d2 p = Inr m2" by auto
  have len2: "bucket_len yc year d2 = length xs"
    using g2 by (simp add: bucket_len_def year_buckets_def p_def [symmetric] m2_def map_of_dict_set
        map_of_dict_del)
  have gone: "xs = [] \<longrightarrow> year \<notin> year_keys yc d2"
    using g2 by (simp add: year_keys_def year_buckets_def p_def [symmetric] m2_def keys_dict_del)
  have same: "xs \<noteq> [] \<longrightarrow> d2 = d"
  proof
    assume ne: "xs \<noteq> []"
    with md(2) have "map_of md year = Some (JArr xs)" by auto
    then have "m2 = m" using ne by (simp add: m2_def md(1) dict_set_same)
    then have "update_path d p (\<lambda>x. Inr m2) = update_path d p Inr"
      by (intro update_path_cong [OF m(1)]) simp
    with update_path_id [OF m(1)] d2 show "d2 = d" by simp
  qed
  show ?thesis
    using rem d2 len0 len1 len2 gone same by (simp add: p_def)
qed

lemma diverge_coll_year: "diverge (map ascii (coll_path c)) (map ascii (year_path yc))"
  by (cases c; cases yc) (simp_all add: ascii_def)

lemma diverge_section_year: "diverge [ascii (section_key sec)] (map ascii (year_path yc))"
  by (cases sec; cases yc) (simp_all add: ascii_def)

lemma diverge_years: "yc' \<noteq> yc \<Longrightarrow> diverge (map ascii (year_path yc') @ q) (map ascii (year_path yc))"
  by (cases yc'; cases yc) (simp_all add: ascii_def)

lemma year_keys_elsewhere:
  "update_path d p f = Inr d' \<Longrightarrow> diverge p (map ascii (year_path yc)) \<Longrightarrow> year_keys yc d' = year_keys yc d"
  using update_path_elsewhere [of d p f d' "map ascii (year_path yc)"]
  by (simp add: year_keys_def year_buckets_def)

lemma year_keys_own:
  assumes "update_path d (map ascii (year_path yc)) f = Inr d'"
    and "\<And>m m'. f m = Inr m' \<Longrightarrow> \<exists>md md'. m = JObj md \<and> m' = JObj md' \<and> fst ` set md' \<subseteq> fst ` set md \<union> K"
  shows "year_keys yc d' \<subseteq> year_keys yc d \<union> K"
proof -
  from update_path_reaches [OF assms(1)] obtain m m' where
    m: "getpath d (map ascii (year_path yc)) = Inr m" "f m = Inr m'"
    "getpath d' (map ascii (year_path yc)) = Inr m'"
    by blast
  from assms(2) [OF m(2)] obtain md md' where
    "m = JObj md" "m' = JObj md'" "fst ` set md' \<subseteq> fst ` set md \<union> K" by blast
  with m show ?thesis by (simp add: year_keys_def year_buckets_def)
qed

lemma list_pop_Inr: "list_pop i b = Inr b' \<Longrightarrow> \<exists>xs. b = JArr xs"
  by (cases b) auto

lemma remove_from_year_keys:
  assumes "remove_from_year y i m = Inr m'"
  shows "\<exists>md md'. m = JObj md \<and> m' = JObj md' \<and> fst ` set md' \<subseteq> fst ` set md \<union> {}"
proof -
  from assms obtain b b' m1 where
    s: "getitem m y = Inr b" "list_pop i b = Inr b'" "setitem m y b' = Inr m1"
    "(if truthy b' then Inr m1 else del_item m1 y) = Inr m'"
    unfolding remove_from_year_def by (auto simp: and_then_Inr)
  from getitem_Inr [OF s(1)] obtain md where md: "m = JObj md" "map_of md y = Some b" by blast
  then have y: "y \<in> fst ` set md" by (metis map_of_eq_None_iff option.distinct(1))
  from s(3) md have m1: "m1 = JObj (dict_set y b' md)" by simp
  have k1: "fst ` set (dict_set y b' md) = fst ` set md"
    using y by (simp add: keys_dict_set insert_absorb)
  have "\<exists>md'. m' = JObj md' \<and> fst ` set md' \<subseteq> fst ` set md"
  proof (cases "truthy b'")
    case True
    with s(4) m1 have "m' = JObj (dict_set y b' md)" by simp
    with k1 show ?thesis by simp
  next
    case False
    with s(4) m1 y have "m' = JObj (dict_del y (dict_set y b' md))"
      by (simp add: k1)
    then show ?thesis by (auto simp: keys_dict_del k1)
  qed
  with md(1) show ?thesis by auto
qed

lemma at_year_keys:
  assumes "update_path m [y] g = Inr m'"
  shows "\<exists>md md'. m = JObj md \<and> m' = JObj md' \<and> fst ` set md' \<subseteq> fst ` set md \<union> {}"
proof -
  from assms obtain b b' where s: "getitem m y = Inr b" "g b = Inr b'" "setitem m y b' = Inr m'"
    by (auto simp: and_then_Inr)
  from getitem_Inr [OF s(1)] obtain md where md: "m = JObj md" "map_of md y = Some b" by blast
  then have y: "y \<in> fst ` set md" by (metis map_of_eq_None_iff option.distinct(1))
  from s(3) md have "m' = JObj (dict_set y b' md)" by simp
  with md(1) y show ?thesis by (auto simp: keys_dict_set)
qed

lemma add_to_year_keys:
  assumes "add_to_year y item m = Inr m'"
  shows "\<exists>md md'. m = JObj md \<and> m' = JObj md' \<and> fst ` set md' \<subseteq> fst ` set md \<union> {y}"
  using add_to_year_Inr [OF assms] by (auto simp: keys_dict_set)

lemma apply_action_year_keys:
  assumes "apply_action ud a d = Inr d'"
  shows "year_keys yc d' \<subseteq> year_keys yc d \<union> {y. y \<noteq> [] \<and> isdigit ud y}"
proof (cases a)
  case (SetScalar sec field v)
  with assms show ?thesis
    using year_keys_elsewhere [OF _ diverge_section_year] by fastforce
next
  case (AddItem c)
  with assms show ?thesis
    using year_keys_elsewhere [OF _ diverge_coll_year] by fastforce
next
  case (SetItemField c i field v)
  with assms show ?thesis
    using year_keys_elsewhere [OF _ diverge_coll_year] by fastforce
next
  case (SetJournal i v)
  with assms have "update_path d (map ascii (coll_path Journals)) (at_index i (\<lambda>old. Inr (JStr v))) = Inr d'"
    by simp
  from year_keys_elsewhere [OF this diverge_coll_year] show ?thesis by simp
next
  case (RemoveItem c i)
  with assms show ?thesis
    using year_keys_elsewhere [OF _ diverge_coll_year] by fastforce
next
  case (AddYearItem yc' year)
  show ?thesis
  proof (cases "year \<noteq> [] \<and> isdigit ud year")
    case False
    with assms AddYearItem show ?thesis by auto
  next
    case True
    with assms AddYearItem have upd:
      "update_path d (map ascii (year_path yc')) (add_to_year year (new_year_item yc')) = Inr d'"
      by simp
    show ?thesis
    proof (cases "yc' = yc")
      case True
      from year_keys_own [OF upd [unfolded True], of "{year}"] add_to_year_keys
      have "year_keys yc d' \<subseteq> year_keys yc d \<union> {year}" by blast
      with \<open>year \<noteq> [] \<and> isdigit ud year\<close> show ?thesis by auto
    next
      case False
      from year_keys_elsewhere [OF upd] diverge_years [OF False, of "[]"] show ?thesis by simp
    qed
  qed
next
  case (SetYearItemField yc' year i field v)
  with assms have upd: "update_path d (map ascii (year_path yc'))
      (\<lambda>x. update_path x [year] (at_index i (assign_field (ascii field) v))) = Inr d'"
    by (simp add: update_path_append)
  show ?thesis
  proof (cases "yc' = yc")
    case True
    from year_keys_own [OF upd [unfolded True], of "{}"] at_year_keys
    have "year_keys yc d' \<subseteq> year_keys yc d \<union> {}" by blast
    then show ?thesis by auto
  next
    case False
    from year_keys_elsewhere [OF upd] diverge_years [OF False, of "[]"] show ?thesis by simp
  qed
next
  case (RemoveYearItem yc' year i)
  with assms have upd: "update_path d (map ascii (year_path yc')) (remove_from_year year i) = Inr d'"
    by simp
  show ?thesis
  proof (cases "yc' = yc")
    case True
    from year_keys_own [OF upd [unfolded True], of "{}"] remove_from_year_keys
    have "year_keys yc d' \<subseteq> year_keys yc d \<union> {}" by blast
    then show ?thesis by auto
  next
    case False
    from year_keys_elsewhere [OF upd] diverge_years [OF False, of "[]"] show ?thesis by simp
  qed
qed

lemma apply_action_preserves:
  assumes "year_keys_ok ud d" and "apply_action ud a d = Inr d'"
  shows "year_keys_ok ud d'"
  unfolding year_keys_ok_def
proof (intro allI ballI)
  fix yc k
  assume "k \<in> year_keys yc d'"
  with apply_action_year_keys [OF assms(2), of yc]
  have "k \<in> year_keys yc d \<or> (k \<noteq> [] \<and> isdigit ud k)" by auto
  with assms(1) show "k \<noteq> [] \<and> isdigit ud k"
    unfolding year_keys_ok_def by auto
qed

lemma default_data_year_keys: "year_keys_ok ud default_data"
proof -
  have "year_keys yc default_data = {}" for yc
    by (cases yc) (simp_all add: year_keys_def year_buckets_def default_data_def obj_def str_obj_def
        ascii_def and_then_def)
  then show ?thesis by (simp add: year_keys_ok_def)
qed

lemma coll_schema: "\<exists>t. schema_at cv_schema (coll_path c) = Some (SList t)"
  by (cases c) (simp_all add: cv_schema_def)

lemma year_schema: "\<exists>t. schema_at cv_schema (year_path yc) = Some (SYears (SList t))"
  by (cases yc) (simp_all add: cv_schema_def)

lemma add_item_succeeds:
  assumes "cv_normalized d"
  shows "\<exists>d1. apply_action ud (AddItem c) d = Inr d1"
proof -
  from coll_schema obtain t where "schema_at cv_schema (coll_path c) = Some (SList t)" by blast
  from conforms_getpath [OF assms [unfolded cv_normalized_def] this] conforms_SList obtain xs where
    "getpath d (map ascii (coll_path c)) = Inr (JArr xs)" by blast
  from update_path_succeeds [OF this, of "list_append (new_item c)"] show ?thesis by simp
qed

lemma add_year_item_succeeds:
  assumes "cv_normalized d"
  shows "\<exists>d1. apply_action ud (AddYearItem yc year) d = Inr d1"
proof (cases "year \<noteq> [] \<and> isdigit ud year")
  case False
  then show ?thesis by auto
next
  case True
  from year_schema obtain t where "schema_at cv_schema (year_path yc) = Some (SYears (SList t))"
    by blast
  from conforms_getpath [OF assms [unfolded cv_normalized_def] this] conforms_SYears obtain md where
    md: "getpath d (map ascii (year_path yc)) = Inr (JObj md)"
    "list_all (\<lambda>kv. conforms (SList t) (snd kv)) md"
    by blast
  have "\<exists>m'. add_to_year year (new_year_item yc) (JObj md) = Inr m'"
  proof (cases "map_of md year")
    case None
    then have "year \<notin> fst ` set md" by (simp add: map_of_eq_None_iff)
    then show ?thesis by (simp add: add_to_year_def and_then_def map_of_dict_set)
  next
    case (Some b)
    then have "(year, b) \<in> set md" by (rule map_of_SomeD)
    with md(2) have "conforms (SList t) b" by (auto simp: list_all_iff)
    with conforms_SList obtain xs where "b = JArr xs" by blast
    moreover have "year \<in> fst ` set md" using \<open>(year, b) \<in> set md\<close> by force
    ultimately show ?thesis using Some by (simp add: add_to_year_def and_then_def)
  qed
  then obtain m' where "add_to_year year (new_year_item yc) (JObj md) = Inr m'" by blast
  from update_path_succeeds [of d "map ascii (year_path yc)" "JObj md"
      "add_to_year year (new_year_item yc)" m', OF md(1) this] True
  show ?thesis by simp
qed

lemma run_preserves:
  "year_keys_ok ud d \<Longrightarrow> run ud as d = Inr d' \<Longrightarrow> year_keys_ok ud d'"
proof (induction as arbitrary: d)
  case Nil
  then show ?case by simp
next
  case (Cons a as)
  from Cons.prems(2) obtain d1 where "apply_action ud a d = Inr d1" "run ud as d1 = Inr d'"
    by (auto simp: and_then_Inr)
  with Cons.IH apply_action_preserves [OF Cons.prems(1)] show ?case by blast
qed

lemma default_data_normalized: "cv_normalized default_data"
  by (simp add: schema_eval default_data_def obj_def str_obj_def ascii_def)



lemma remove_last_of_year:
  assumes "map_of (year_buckets yc d) year = Some (JArr [x])"
  shows "\<exists>d2. apply_action ud (RemoveYearItem yc year 0) d = Inr d2 \<and> year \<notin> year_keys yc d2"
proof -
  define p where "p = map ascii (year_path yc)"
  from assms obtain m where m: "getpath d p = Inr (JObj m)" "map_of m year = Some (JArr [x])"
    unfolding year_buckets_def p_def [symmetric]
    by (auto split: sum.splits json.splits)
  then have isin: "year \<in> fst ` set m" by (metis map_of_eq_None_iff option.distinct(1))
  have rem: "remove_from_year year 0 (JObj m) = Inr (JObj (dict_del year (dict_set year (JArr []) m)))"
    using m(2) by (simp add: remove_from_year_def and_then_def keys_dict_set)
  from update_path_succeeds [of d p "JObj m" "remove_from_year year 0", OF m(1) rem]
  obtain d2 where d2: "update_path d p (remove_from_year year 0) = Inr d2" by blast
  from update_path_reaches [OF d2] m(1) rem
  have "getpath d2 p = Inr (JObj (dict_del year (dict_set year (JArr []) m)))" by auto
  then have "year \<notin> year_keys yc d2"
    by (simp add: year_keys_def year_buckets_def p_def [symmetric] keys_dict_del)
  with d2 show ?thesis by (auto simp: p_def)
qed

text \<open>
  C7.  Appending an entry to a list collection and then removing it (it is the last
  entry, at the index that was the length) gives back the record, so the length is the one
  before the append.  For a collection keyed by year and a year that passes the digit test,
  appending to the year's bucket and then removing that entry restores the length of the
  bucket, and when the bucket was absent or empty before, the year key is gone afterwards.
  Removing the only item of a year's bucket deletes the year key.  On a normalized record
  both appends succeed.
\<close>

theorem append_then_remove:
  "(apply_action ud (AddItem c) d = Inr d1 \<longrightarrow>
      apply_action ud (RemoveItem c (coll_len c d)) d1 = Inr d
      \<and> coll_len c d1 = Suc (coll_len c d))
   \<and> (year \<noteq> [] \<and> isdigit ud year \<and> apply_action ud (AddYearItem yc year) d = Inr d1' \<longrightarrow>
        (\<exists>d2. apply_action ud (RemoveYearItem yc year (bucket_len yc year d)) d1' = Inr d2
           \<and> bucket_len yc year d1' = Suc (bucket_len yc year d)
           \<and> bucket_len yc year d2 = bucket_len yc year d
           \<and> (bucket_len yc year d = 0 \<longrightarrow> year \<notin> year_keys yc d2)
           \<and> (bucket_len yc year d \<noteq> 0 \<longrightarrow> d2 = d)))
   \<and> (map_of (year_buckets yc d) year = Some (JArr [x]) \<longrightarrow>
        (\<exists>d2. apply_action ud (RemoveYearItem yc year 0) d = Inr d2 \<and> year \<notin> year_keys yc d2))
   \<and> (cv_normalized d \<longrightarrow>
        (\<exists>e. apply_action ud (AddItem c) d = Inr e)
        \<and> (\<exists>e. apply_action ud (AddYearItem yc year) d = Inr e))"
  using add_then_remove_plain [of ud c d d1] add_then_remove_year [of year ud yc d d1']
    add_item_succeeds [of d ud c] add_year_item_succeeds [of d ud yc year]
    remove_last_of_year [of yc d year x ud]
  by blast

theorem append_then_remove_witness:
  "cv_normalized default_data \<and> isdigit ud_superscripts (ascii ''2024'')
   \<and> (\<exists>d1 d2. apply_action ud_superscripts (AddYearItem ByYear (ascii ''2024'')) default_data = Inr d1
         \<and> apply_action ud_superscripts (RemoveYearItem ByYear (ascii ''2024'') 0) d1 = Inr d2
         \<and> ascii ''2024'' \<notin> year_keys ByYear d2)"
proof -
  have dig: "ascii ''2024'' \<noteq> []" "isdigit ud_superscripts (ascii ''2024'')"
    by (simp_all add: isdigit_def ascii_def ascii_digit_def)
  have len: "bucket_len ByYear (ascii ''2024'') default_data = 0"
    by (simp add: bucket_len_def year_buckets_def default_data_def obj_def str_obj_def ascii_def
        and_then_def)
  from append_then_remove [of ud_superscripts Education default_data _ "ascii ''2024''" ByYear]
    default_data_normalized
  obtain d1 where d1: "apply_action ud_superscripts (AddYearItem ByYear (ascii ''2024'')) default_data = Inr d1"
    by blast
  from append_then_remove [of ud_superscripts Education default_data _ "ascii ''2024''" ByYear d1]
    dig d1 len
  obtain d2 where "apply_action ud_superscripts (RemoveYearItem ByYear (ascii ''2024'') 0) d1 = Inr d2"
    "ascii ''2024'' \<notin> year_keys ByYear d2"
    by auto
  with d1 dig default_data_normalized show ?thesis by blast
qed

text \<open>
  C8.  The claim as amended: every key of \<open>publications.by_year\<close> and of
  \<open>conference_proceedings\<close> is a non-empty string of characters that \<open>str.isdigit\<close> accepts.
  This holds of the default record and is preserved by every editing step, hence by every
  sequence of steps; a year that fails \<open>year and year.isdigit()\<close> is rejected and the record
  stays as it is.
\<close>

theorem year_keys_invariant:
  "year_keys_ok ud default_data
   \<and> (year_keys_ok ud d \<and> apply_action ud a d = Inr d' \<longrightarrow> year_keys_ok ud d')
   \<and> (year_keys_ok ud d \<and> run ud as d = Inr d'' \<longrightarrow> year_keys_ok ud d'')
   \<and> (\<not> (year \<noteq> [] \<and> isdigit ud year) \<longrightarrow> apply_action ud (AddYearItem yc year) d = Inr d)"
  using default_data_year_keys [of ud] apply_action_preserves [of ud d a d']
    run_preserves [of ud d as d'']
  by auto

theorem year_keys_invariant_witness:
  "year_keys_ok ud_superscripts default_data
   \<and> (\<exists>d'. apply_action ud_superscripts (AddYearItem ByYear (ascii ''2024'')) default_data = Inr d'
         \<and> year_keys_ok ud_superscripts d')
   \<and> apply_action ud_superscripts (AddYearItem ByYear (ascii ''20x4'')) default_data = Inr default_data"
proof -
  from add_year_item_succeeds [OF default_data_normalized] obtain d' where
    d': "apply_action ud_superscripts (AddYearItem ByYear (ascii ''2024'')) default_data = Inr d'"
    by blast
  have bad: "\<not> (ascii ''20x4'' \<noteq> [] \<and> isdigit ud_superscripts (ascii ''20x4''))"
    by (simp add: isdigit_def ascii_def ascii_digit_def)
  from year_keys_invariant [of ud_superscripts default_data "AddYearItem ByYear (ascii ''2024'')" d'
      "[]" default_data "ascii ''20x4''" ByYear] d' bad
  show ?thesis by blast
qed

text \<open>
  C8, the claim as stated fails: the keys need not be decimal digits.  \<open>isdigit\<close> accepts
  the superscript two (U+00B2, code point 178), so "Add Publication for Year" with that
  year creates the bucket, and its key is not a string of decimal digits.
\<close>

lemma unicode_digit_year:
  "year_keys ByYear (the_result (apply_action ud_superscripts (AddYearItem ByYear [178]) default_data)) = {[178]}
   \<and> \<not> decimal_digits [178]"
  by (simp add: the_result_def ud_superscripts_def isdigit_def add_to_year_def and_then_def
      default_data_def obj_def str_obj_def ascii_def year_keys_def year_buckets_def
      decimal_digits_def ascii_digit_def)

section \<open>Properties of normalization and loading\<close>

lemma fill_key_Inr:
  assumes "fill_key k x = Inr y"
  shows "py_in k y = Inr True \<and> (\<forall>k'. py_in k' x = Inr True \<longrightarrow> py_in k' y = Inr True)"
proof (cases x)
  case (JObj d)
  show ?thesis
  proof (cases "k \<in> fst ` set d")
    case True
    with assms JObj have "y = x" by (simp add: fill_key_def and_then_def)
    with True JObj show ?thesis by simp
  next
    case False
    with assms JObj have "y = JObj (dict_set k (JStr []) d)"
      by (simp add: fill_key_def and_then_def)
    then show ?thesis using JObj by (simp add: keys_dict_set)
  qed
next
  case (JArr xs)
  with assms have "JStr k \<in> set xs \<and> y = x"
    by (simp add: fill_key_def and_then_def split: if_splits)
  with JArr show ?thesis by simp
next
  case (JStr t)
  with assms have "in_str k t \<and> y = x"
    by (simp add: fill_key_def and_then_def split: if_splits)
  with JStr show ?thesis by simp
qed (use assms in \<open>simp_all add: fill_key_def and_then_def\<close>)

lemma fill_keys_Inr:
  "fill_keys ks x = Inr y \<Longrightarrow>
     (\<forall>k\<in>set ks. py_in k y = Inr True) \<and> (\<forall>k'. py_in k' x = Inr True \<longrightarrow> py_in k' y = Inr True)"
proof (induction ks arbitrary: x)
  case Nil
  then show ?case by simp
next
  case (Cons k ks)
  from Cons.prems obtain z where z: "fill_key k x = Inr z" "fill_keys ks z = Inr y"
    by (auto simp: and_then_Inr)
  from fill_key_Inr [OF z(1)] Cons.IH [OF z(2)] show ?case by auto
qed

lemma fill_keys_present:
  "\<forall>k\<in>set ks. py_in k y = Inr True \<Longrightarrow> fill_keys ks y = Inr y"
  by (induction ks) (simp_all add: fill_key_def and_then_def)

lemma fill_keys_idem: "fill_keys ks x = Inr y \<Longrightarrow> fill_keys ks y = Inr y"
  using fill_keys_Inr [of ks x y] fill_keys_present [of ks y] by blast

lemma map_result_fixed:
  assumes "\<And>x y. f x = Inr y \<Longrightarrow> g y = Inr y"
  shows "map_result f xs = Inr ys \<Longrightarrow> map_result g ys = Inr ys"
proof (induction xs arbitrary: ys)
  case Nil
  then show ?case by simp
next
  case (Cons x xs)
  from Cons.prems obtain y zs where yz: "f x = Inr y" "map_result f xs = Inr zs" "ys = y # zs"
    by (auto simp: and_then_Inr)
  from assms [OF yz(1)] Cons.IH [OF yz(2)] yz(3) show ?case by (simp add: and_then_def)
qed


lemma normalize_pubs_idem:
  assumes "normalize_pubs u = Inr u'"
  shows "normalize_pubs u' = Inr u'"
proof (cases u)
  case (JArr xs)
  with assms obtain ys where ys: "map_result (fill_keys (map ascii publication_fields)) xs = Inr ys"
    "u' = JArr ys"
    by (auto simp: normalize_pubs_def and_then_Inr)
  from map_result_fixed [of "fill_keys (map ascii publication_fields)"
      "fill_keys (map ascii publication_fields)", OF fill_keys_idem ys(1)]
  show ?thesis by (simp add: ys(2) normalize_pubs_def and_then_def)
qed (use assms in \<open>auto simp: normalize_pubs_def and_then_Inr\<close>)

lemma normalize_years_idem:
  assumes "normalize_years b = Inr b'"
  shows "normalize_years b' = Inr b'"
proof -
  let ?f = "\<lambda>kv. and_then (normalize_pubs (snd kv)) (\<lambda>v. Inr (fst kv, v))"
  from assms obtain kvs kvs' where k: "b = JObj kvs" "map_result ?f kvs = Inr kvs'" "b' = JObj kvs'"
    by (cases b) (auto simp: normalize_years_def and_then_Inr)
  have "?f x = Inr y \<Longrightarrow> ?f y = Inr y" for x y
    using normalize_pubs_idem by (auto simp: and_then_Inr)
  from map_result_fixed [of ?f ?f, OF this k(2)] show ?thesis
    by (simp add: k(3) normalize_years_def and_then_def)
qed

lemma update_path_fix: "getpath d p = Inr x \<Longrightarrow> f x = Inr x \<Longrightarrow> update_path d p f = Inr d"
  using update_path_cong [of d p x f Inr] update_path_id [of d p x] by simp

lemma normalize_publications_parts:
  assumes "normalize_publications r = Inr r'"
  shows "\<exists>u u' b b'. normalize_pubs u = Inr u' \<and> normalize_years b = Inr b'
           \<and> getpath r' [ascii ''publications'', ascii ''under_review''] = Inr u'
           \<and> getpath r' [ascii ''publications'', ascii ''by_year''] = Inr b'"
proof -
  from assms obtain d3 d4 where
    s4: "update_path d3 [ascii ''publications'', ascii ''under_review''] normalize_pubs = Inr d4"
    and s5: "update_path d4 [ascii ''publications'', ascii ''by_year''] normalize_years = Inr r'"
    unfolding normalize_publications_def by (auto simp only: and_then_Inr)
  from update_path_reaches [OF s4] obtain u u' where
    u: "normalize_pubs u = Inr u'"
    "getpath d4 [ascii ''publications'', ascii ''under_review''] = Inr u'"
    by blast
  from update_path_reaches [OF s5] obtain b b' where
    b: "normalize_years b = Inr b'"
    "getpath r' [ascii ''publications'', ascii ''by_year''] = Inr b'"
    by blast
  have "diverge [ascii ''publications'', ascii ''by_year''] [ascii ''publications'', ascii ''under_review'']"
    by (simp add: ascii_def)
  from update_path_elsewhere [OF s5 this] u(2)
  have "getpath r' [ascii ''publications'', ascii ''under_review''] = Inr u'" by simp
  with u(1) b show ?thesis by blast
qed

lemma normalize_publications_fixed:
  assumes u: "getpath r [ascii ''publications'', ascii ''under_review''] = Inr u" "normalize_pubs u = Inr u"
    and b: "getpath r [ascii ''publications'', ascii ''by_year''] = Inr b" "normalize_years b = Inr b"
  shows "normalize_publications r = Inr r"
proof -
  from u(1) b(1) obtain p where p: "getitem r (ascii ''publications'') = Inr p"
    "getitem p (ascii ''under_review'') = Inr u" "getitem p (ascii ''by_year'') = Inr b"
    by (auto simp: and_then_Inr)
  from getitem_Inr [OF p(1)] obtain rd where rd: "r = JObj rd" "map_of rd (ascii ''publications'') = Some p"
    by blast
  from getitem_Inr [OF p(2)] obtain pd where pd: "p = JObj pd" "map_of pd (ascii ''under_review'') = Some u"
    by blast
  from getitem_Inr [OF p(3)] pd(1) have pb: "map_of pd (ascii ''by_year'') = Some b" by auto
  have in_r: "ascii ''publications'' \<in> fst ` set rd"
    using rd(2) by (metis map_of_eq_None_iff option.distinct(1))
  have in_p: "ascii ''under_review'' \<in> fst ` set pd" "ascii ''by_year'' \<in> fst ` set pd"
    using pd(2) pb by (metis map_of_eq_None_iff option.distinct(1))+
  have e1: "ensure_publications r = Inr r"
    using in_r rd pd(1) by (simp add: ensure_publications_def and_then_def)
  have gp: "getpath r [ascii ''publications''] = Inr p"
    using p(1) by (simp add: and_then_def)
  have e2: "update_path r [ascii ''publications''] (ensure_key (ascii ''under_review'') (JArr [])) = Inr r"
    by (rule update_path_fix [OF gp]) (simp add: ensure_key_def and_then_def pd(1) in_p)
  have e3: "update_path r [ascii ''publications''] (ensure_key (ascii ''by_year'') (JObj [])) = Inr r"
    by (rule update_path_fix [OF gp]) (simp add: ensure_key_def and_then_def pd(1) in_p)
  have e4: "update_path r [ascii ''publications'', ascii ''under_review''] normalize_pubs = Inr r"
    by (rule update_path_fix [of r _ u normalize_pubs, OF u(1) u(2)])
  have e5: "update_path r [ascii ''publications'', ascii ''by_year''] normalize_years = Inr r"
    by (rule update_path_fix [of r _ b normalize_years, OF b(1) b(2)])
  show ?thesis
    by (simp only: normalize_publications_def e1 e2 e3 e4 e5 and_then_def sum.case)
qed

lemma normalize_publications_idem:
  assumes "normalize_publications r = Inr r'"
  shows "normalize_publications r' = Inr r'"
proof -
  from normalize_publications_parts [OF assms] obtain u u' b b' where
    "normalize_pubs u = Inr u'" "normalize_years b = Inr b'"
    "getpath r' [ascii ''publications'', ascii ''under_review''] = Inr u'"
    "getpath r' [ascii ''publications'', ascii ''by_year''] = Inr b'"
    by blast
  then show ?thesis
    using normalize_pubs_idem normalize_years_idem normalize_publications_fixed by blast
qed






lemmas nm_eval = normalize_publications_def ensure_publications_def ensure_key_def normalize_years_def
  normalize_pubs_def fill_key_def default_publications_def publication_fields_def obj_def str_obj_def
  ascii_def and_then_def

lemma normalize_partial_example: "normalize_publications partial_example = Inr normalized_example"
  by (simp add: nm_eval partial_example_def normalized_example_def)


lemma fill_key_dict: "\<exists>d'. fill_key k (JObj d) = Inr (JObj d')"
  by (simp add: fill_key_def and_then_def)

lemma fill_keys_dict: "\<exists>d'. fill_keys ks (JObj d) = Inr (JObj d')"
proof (induction ks arbitrary: d)
  case Nil
  show ?case by simp
next
  case (Cons k ks)
  from fill_key_dict obtain d1 where "fill_key k (JObj d) = Inr (JObj d1)" by blast
  with Cons.IH [of d1] show ?case by (simp add: and_then_def)
qed

lemma has_fields_pub_any:
  assumes "\<forall>k\<in>set (map ascii publication_fields). py_in k (JObj d) = Inr True"
  shows "conforms pub_any (JObj d)"
proof -
  have "\<exists>v. map_of d (ascii f) = Some v" if "f \<in> set publication_fields" for f
  proof -
    from that assms have "ascii f \<in> fst ` set d" by simp
    then show ?thesis by (metis map_of_eq_None_iff not_Some_eq)
  qed
  then show ?thesis
    by (force simp: pub_any_def list_all_iff split: option.splits)
qed

lemma fill_keys_dict_pub_any:
  assumes "is_dict x"
  shows "\<exists>y. fill_keys (map ascii publication_fields) x = Inr y \<and> conforms pub_any y"
proof -
  from assms obtain d where d: "x = JObj d" by (cases x) auto
  from fill_keys_dict obtain d' where d': "fill_keys (map ascii publication_fields) (JObj d) = Inr (JObj d')"
    by blast
  from fill_keys_Inr [OF d'] has_fields_pub_any have "conforms pub_any (JObj d')" by blast
  with d d' show ?thesis by blast
qed

lemma map_result_all:
  "\<forall>x\<in>set xs. \<exists>y. f x = Inr y \<and> Q y \<Longrightarrow> \<exists>ys. map_result f xs = Inr ys \<and> list_all Q ys"
proof (induction xs)
  case Nil
  show ?case by simp
next
  case (Cons x xs)
  then obtain y ys where "f x = Inr y" "Q y" "map_result f xs = Inr ys" "list_all Q ys"
    by auto
  then show ?case by (simp add: and_then_def)
qed

lemma normalize_pubs_dicts:
  assumes "dicts_list u"
  shows "\<exists>u'. normalize_pubs u = Inr u' \<and> conforms (SList pub_any) u'"
proof -
  from assms obtain xs where xs: "u = JArr xs" "list_all is_dict xs"
    by (cases u) (auto simp: dicts_list_def)
  have "\<forall>x\<in>set xs. \<exists>y. fill_keys (map ascii publication_fields) x = Inr y \<and> conforms pub_any y"
    using xs(2) fill_keys_dict_pub_any by (auto simp: list_all_iff)
  from map_result_all [OF this] obtain ys where
    "map_result (fill_keys (map ascii publication_fields)) xs = Inr ys" "list_all (conforms pub_any) ys"
    by blast
  with xs(1) show ?thesis by (simp add: normalize_pubs_def and_then_def)
qed

lemma normalize_years_dicts:
  assumes "list_all (\<lambda>kv. dicts_list (snd kv)) kvs"
  shows "\<exists>b'. normalize_years (JObj kvs) = Inr b' \<and> conforms (SYears (SList pub_any)) b'"
proof -
  let ?f = "\<lambda>kv. and_then (normalize_pubs (snd kv)) (\<lambda>v. Inr (fst kv, v))"
  have "\<forall>kv\<in>set kvs. \<exists>kv'. ?f kv = Inr kv' \<and> conforms (SList pub_any) (snd kv')"
  proof
    fix kv assume "kv \<in> set kvs"
    with assms have "dicts_list (snd kv)" by (simp add: list_all_iff)
    from normalize_pubs_dicts [OF this] obtain v where
      "normalize_pubs (snd kv) = Inr v" "conforms (SList pub_any) v" by blast
    then show "\<exists>kv'. ?f kv = Inr kv' \<and> conforms (SList pub_any) (snd kv')"
      by (simp add: and_then_def)
  qed
  from map_result_all [OF this] obtain kvs' where
    "map_result ?f kvs = Inr kvs'" "list_all (\<lambda>kv. conforms (SList pub_any) (snd kv)) kvs'"
    by blast
  then show ?thesis by (simp add: normalize_years_def and_then_def)
qed

lemma ensure_publications_partial:
  assumes "partial_record r"
  shows "\<exists>d1 pd. ensure_publications r = Inr d1 \<and> getpath d1 [ascii ''publications''] = Inr (JObj pd)
           \<and> partial_pubs (JObj pd)"
proof -
  from assms obtain rd where rd: "r = JObj rd" by (cases r) (auto simp: partial_record_def)
  have dflt: "partial_pubs default_publications" "\<exists>pd. default_publications = JObj pd"
    by (simp_all add: partial_pubs_def default_publications_def obj_def ascii_def dicts_list_def)
  show ?thesis
  proof (cases "map_of rd (ascii ''publications'')")
    case None
    then have "ascii ''publications'' \<notin> fst ` set rd" by (simp add: map_of_eq_None_iff)
    then have "ensure_publications r = Inr (JObj (dict_set (ascii ''publications'') default_publications rd))"
      by (simp add: ensure_publications_def and_then_def rd)
    with dflt show ?thesis
      by (auto simp: and_then_def map_of_dict_set)
  next
    case (Some p)
    then have isin: "ascii ''publications'' \<in> fst ` set rd"
      by (metis map_of_eq_None_iff option.distinct(1))
    show ?thesis
    proof (cases "is_dict p")
      case True
      then obtain pd where pd: "p = JObj pd" by (cases p) auto
      from assms rd Some have "partial_pubs p" by (simp add: partial_record_def)
      moreover have "ensure_publications r = Inr r"
        using isin Some True by (simp add: ensure_publications_def and_then_def rd)
      ultimately show ?thesis using Some pd rd by (auto simp: and_then_def)
    next
      case False
      then have "ensure_publications r = Inr (JObj (dict_set (ascii ''publications'') default_publications rd))"
        using isin Some by (simp add: ensure_publications_def and_then_def rd)
      with dflt show ?thesis
        by (auto simp: and_then_def map_of_dict_set)
    qed
  qed
qed

lemma ensure_key_dict:
  "\<exists>pd'. ensure_key k v (JObj pd) = Inr (JObj pd')
     \<and> map_of pd' k = Some (case map_of pd k of Some w \<Rightarrow> w | None \<Rightarrow> v)
     \<and> (\<forall>k'. k' \<noteq> k \<longrightarrow> map_of pd' k' = map_of pd k')"
proof (cases "map_of pd k")
  case None
  then have "k \<notin> fst ` set pd" by (simp add: map_of_eq_None_iff)
  with None show ?thesis by (simp add: ensure_key_def and_then_def map_of_dict_set)
next
  case (Some w)
  then have "k \<in> fst ` set pd" by (metis map_of_eq_None_iff option.distinct(1))
  with Some show ?thesis by (simp add: ensure_key_def and_then_def)
qed

lemma pm_normalized_paths:
  assumes "getpath r [ascii ''publications'', ascii ''under_review''] = Inr u" "conforms (SList pub_any) u"
    and "getpath r [ascii ''publications'', ascii ''by_year''] = Inr b" "conforms (SYears (SList pub_any)) b"
  shows "pm_normalized r"
proof -
  from assms(1,3) obtain p where p: "getitem r (ascii ''publications'') = Inr p"
    "getitem p (ascii ''under_review'') = Inr u" "getitem p (ascii ''by_year'') = Inr b"
    by (auto simp: and_then_Inr)
  from getitem_Inr [OF p(1)] obtain rd where rd: "r = JObj rd" "map_of rd (ascii ''publications'') = Some p"
    by blast
  from getitem_Inr [OF p(2)] obtain pd where pd: "p = JObj pd" "map_of pd (ascii ''under_review'') = Some u"
    by blast
  from getitem_Inr [OF p(3)] pd(1) have pb: "map_of pd (ascii ''by_year'') = Some b" by auto
  show ?thesis
    unfolding pm_normalized_def pm_schema_def
    using rd pd pb assms(2,4) by simp
qed

lemma normalize_publications_partial:
  assumes "partial_record r"
  shows "\<exists>r'. normalize_publications r = Inr r' \<and> pm_normalized r'"
proof -
  let ?P = "ascii ''publications''" and ?U = "ascii ''under_review''" and ?B = "ascii ''by_year''"
  have ne: "?U \<noteq> ?B" by (simp add: ascii_def)
  from ensure_publications_partial [OF assms] obtain d1 pd1 where
    d1: "ensure_publications r = Inr d1" "getpath d1 [?P] = Inr (JObj pd1)" "partial_pubs (JObj pd1)"
    by blast
  from ensure_key_dict [of ?U "JArr []" pd1] obtain pd2 where
    pd2: "ensure_key ?U (JArr []) (JObj pd1) = Inr (JObj pd2)"
    "map_of pd2 ?U = Some (case map_of pd1 ?U of Some w \<Rightarrow> w | None \<Rightarrow> JArr [])"
    "\<forall>k'. k' \<noteq> ?U \<longrightarrow> map_of pd2 k' = map_of pd1 k'"
    by blast
  from update_path_succeeds [of d1 "[?P]" "JObj pd1" "ensure_key ?U (JArr [])" "JObj pd2", OF d1(2) pd2(1)]
  obtain d2 where d2: "update_path d1 [?P] (ensure_key ?U (JArr [])) = Inr d2" by blast
  from update_path_reaches [OF d2] d1(2) pd2(1) have g2: "getpath d2 [?P] = Inr (JObj pd2)" by auto
  from ensure_key_dict [of ?B "JObj []" pd2] obtain pd3 where
    pd3: "ensure_key ?B (JObj []) (JObj pd2) = Inr (JObj pd3)"
    "map_of pd3 ?B = Some (case map_of pd2 ?B of Some w \<Rightarrow> w | None \<Rightarrow> JObj [])"
    "\<forall>k'. k' \<noteq> ?B \<longrightarrow> map_of pd3 k' = map_of pd2 k'"
    by blast
  from update_path_succeeds [of d2 "[?P]" "JObj pd2" "ensure_key ?B (JObj [])" "JObj pd3", OF g2 pd3(1)]
  obtain d3 where d3: "update_path d2 [?P] (ensure_key ?B (JObj [])) = Inr d3" by blast
  from update_path_reaches [OF d3] g2 pd3(1) have g3: "getpath d3 [?P] = Inr (JObj pd3)" by auto
  obtain u where u: "map_of pd3 ?U = Some u" "dicts_list u"
  proof (cases "map_of pd1 ?U")
    case None
    with pd2(2) pd3(3) ne have "map_of pd3 ?U = Some (JArr [])" by simp
    then show ?thesis using that by (simp add: dicts_list_def)
  next
    case (Some w)
    with d1(3) have "dicts_list w" by (simp add: partial_pubs_def)
    moreover from Some pd2(2) pd3(3) ne have "map_of pd3 ?U = Some w" by simp
    ultimately show ?thesis using that by blast
  qed
  obtain kvs where kvs: "map_of pd3 ?B = Some (JObj kvs)" "list_all (\<lambda>kv. dicts_list (snd kv)) kvs"
  proof (cases "map_of pd1 ?B")
    case None
    with pd2(3) pd3(2) ne have "map_of pd3 ?B = Some (JObj [])" by simp
    then show ?thesis using that by simp
  next
    case (Some w)
    with d1(3) obtain ws where "w = JObj ws" "list_all (\<lambda>kv. dicts_list (snd kv)) ws"
      by (cases w) (auto simp: partial_pubs_def split: option.splits)
    moreover from Some pd2(3) pd3(2) ne have "map_of pd3 ?B = Some w" by simp
    ultimately show ?thesis using that by blast
  qed
  have gu: "getpath d3 [?P, ?U] = Inr u" and gb: "getpath d3 [?P, ?B] = Inr (JObj kvs)"
  proof -
    from g3 have gi: "getitem d3 ?P = Inr (JObj pd3)" by (auto simp: and_then_Inr)
    show "getpath d3 [?P, ?U] = Inr u" "getpath d3 [?P, ?B] = Inr (JObj kvs)"
      using gi u(1) kvs(1) by (simp_all add: and_then_def)
  qed
  from normalize_pubs_dicts [OF u(2)] obtain u' where
    u': "normalize_pubs u = Inr u'" "conforms (SList pub_any) u'" by blast
  from update_path_succeeds [of d3 "[?P, ?U]" u normalize_pubs u', OF gu u'(1)]
  obtain d4 where d4: "update_path d3 [?P, ?U] normalize_pubs = Inr d4" by blast
  from update_path_reaches [OF d4] gu u'(1) have gu4: "getpath d4 [?P, ?U] = Inr u'" by auto
  have "diverge [?P, ?U] [?P, ?B]" using ne by simp
  from update_path_elsewhere [OF d4 this] gb have gb4: "getpath d4 [?P, ?B] = Inr (JObj kvs)" by simp
  from normalize_years_dicts [OF kvs(2)] obtain b' where
    b': "normalize_years (JObj kvs) = Inr b'" "conforms (SYears (SList pub_any)) b'" by blast
  from update_path_succeeds [of d4 "[?P, ?B]" "JObj kvs" normalize_years b', OF gb4 b'(1)]
  obtain r' where r': "update_path d4 [?P, ?B] normalize_years = Inr r'" by blast
  from update_path_reaches [OF r'] gb4 b'(1) have gb5: "getpath r' [?P, ?B] = Inr b'" by auto
  have "diverge [?P, ?B] [?P, ?U]" using ne by simp
  from update_path_elsewhere [OF r' this] gu4 have gu5: "getpath r' [?P, ?U] = Inr u'" by simp
  have "normalize_publications r = Inr r'"
    by (simp only: normalize_publications_def d1(1) d2 d3 d4 r' and_then_def sum.case)
  with pm_normalized_paths [OF gu5 u'(2) gb5 b'(2)] show ?thesis by blast
qed

lemma partial_example_partial: "partial_record partial_example"
  by (simp add: partial_record_def partial_pubs_def dicts_list_def partial_example_def obj_def
      ascii_def)

text \<open>
  C5.  Normalization is idempotent: normalizing the result of \<open>normalize_publications\<close>
  gives that result again; where the first normalization raises, so does the composition.
  On every partial record the normalization raises nothing and its result is a normalized
  record, which a second normalization leaves as it is.
\<close>

theorem normalize_idempotent:
  "and_then (normalize_publications r) normalize_publications = normalize_publications r
   \<and> (normalize_publications r = Inr r' \<longrightarrow> normalize_publications r' = Inr r')
   \<and> (partial_record r \<longrightarrow>
        (\<exists>n. normalize_publications r = Inr n \<and> pm_normalized n \<and> normalize_publications n = Inr n))"
proof -
  have "and_then (normalize_publications r) normalize_publications = normalize_publications r"
  proof (cases "normalize_publications r")
    case (Inl e)
    then show ?thesis by (simp add: and_then_def)
  next
    case (Inr n)
    with normalize_publications_idem [OF Inr] show ?thesis by (simp add: and_then_def)
  qed
  moreover have "normalize_publications r = Inr r' \<longrightarrow> normalize_publications r' = Inr r'"
    using normalize_publications_idem by blast
  moreover have "partial_record r \<longrightarrow>
        (\<exists>n. normalize_publications r = Inr n \<and> pm_normalized n \<and> normalize_publications n = Inr n)"
    using normalize_publications_partial [of r] normalize_publications_idem by blast
  ultimately show ?thesis by blast
qed

theorem normalize_idempotent_witness:
  "partial_record partial_example
   \<and> normalize_publications partial_example = Inr normalized_example
   \<and> normalize_publications normalized_example = Inr normalized_example"
  using normalize_idempotent [of partial_example normalized_example] normalize_partial_example
    partial_example_partial
  by simp

text \<open>
  C2.  The claim is that every decode path normalizes the parsed record.  The publication
  managers do; cv_builder.py does not.  For a store whose \<open>cv_data.json\<close> row holds \<open>{}\<close>,
  the session of cv_builder.py holds the empty dict after loading, which is not normalized
  and on which \<open>validate_data\<close> raises \<open>KeyError\<close>, while the publication manager's
  session holds the normalized record.
\<close>

theorem cv_builder_load_not_normalized:
  "data (load_db loads_example [empty_object_row] initial_session) = JObj []
   \<and> \<not> cv_normalized (JObj [])
   \<and> validate_data uw_latin1 (JObj []) = Inl KeyError
   \<and> load_publications loads_example [empty_object_row] default_publication_data =
       Inr (obj [(''publications'', default_publications)])
   \<and> pm_normalized (obj [(''publications'', default_publications)])"
proof -
  have "data (load_db loads_example [empty_object_row] initial_session) = JObj []"
    by (simp add: load_db_def load_row_def loads_example_def empty_object_row_def)
  moreover have "\<not> cv_normalized (JObj [])"
    by (simp add: cv_normalized_def cv_schema_def)
  moreover have "validate_data uw_latin1 (JObj []) = Inl KeyError"
    by (simp add: validate_data_def and_then_def)
  moreover have "load_publications loads_example [empty_object_row] default_publication_data =
       Inr (obj [(''publications'', default_publications)])"
    by (simp add: load_publications_def rows_for_def loads_example_def empty_object_row_def nm_eval)
  moreover have "pm_normalized (obj [(''publications'', default_publications)])"
    by (simp add: pm_normalized_def pm_schema_def pub_any_def default_publications_def obj_def
        ascii_def)
  ultimately show ?thesis by blast
qed

section \<open>Properties of the JSON codec\<close>

lemma hex_value_hex_digit: "d < 16 \<Longrightarrow> hex_value (hex_digit d) = Some d"
  by (auto simp: hex_value_def hex_digit_def)

lemma hex4_sum:
  assumes "n < 65536"
  shows "n div 4096 mod 16 * 4096 + n div 256 mod 16 * 256 + n div 16 mod 16 * 16 + n mod 16 = (n::nat)"
proof -
  have a: "n div 4096 mod 16 = n div 4096" using assms by simp
  have b: "n div 256 = n div 4096 * 16 + n div 256 mod 16"
    using div_mult_mod_eq [of "n div 256" 16] by (simp add: div_mult2_eq [symmetric])
  have c: "n div 16 = n div 256 * 16 + n div 16 mod 16"
    using div_mult_mod_eq [of "n div 16" 16] by (simp add: div_mult2_eq [symmetric])
  have d: "n = n div 16 * 16 + n mod 16" by simp
  show ?thesis using a b c d by linarith
qed

lemma surrogate_sum:
  assumes "65536 \<le> c" "c \<le> 1114111"
  shows "65536 + ((c - 65536) div 1024 mod 1024 * 1024 + (c - 65536) mod 1024) = (c::nat)"
proof -
  have "(c - 65536) div 1024 mod 1024 = (c - 65536) div 1024" using assms by simp
  then show ?thesis using assms by simp
qed

lemma unhex4_hex4: "n < 65536 \<Longrightarrow> unhex4 (hex4 n @ rest) = Some n"
  using hex4_sum [of n] by (simp add: hex4_def hex_value_hex_digit)

lemma length_hex4: "length (hex4 n) = 4"
  by (simp add: hex4_def)

lemma drop4_hex4: "drop 4 (hex4 n @ t) = t"
  by (simp add: hex4_def)

lemma drop6_hex4: "drop 6 (hex4 n @ t) = drop 2 t"
  by (simp add: hex4_def)

lemma drop10_hex4: "drop 10 (hex4 n @ a # b # hex4 m @ t) = t"
  by (simp add: hex4_def)

lemma escape_char_simple:
  "simple_char c \<Longrightarrow> \<exists>e. escape_char c = [92, e] \<and> e \<noteq> 117 \<and> simple_escape e = Some c"
  unfolding simple_char_def escape_char_def simple_escape_def by auto

lemma escape_char_literal:
  "\<not> simple_char c \<Longrightarrow> 32 \<le> c \<Longrightarrow> c \<le> 126 \<Longrightarrow> escape_char c = [c]"
  unfolding simple_char_def escape_char_def by simp

lemma escape_char_bmp:
  "\<not> simple_char c \<Longrightarrow> \<not> (32 \<le> c \<and> c \<le> 126) \<Longrightarrow> c < 65536 \<Longrightarrow> escape_char c = [92, 117] @ hex4 c"
  unfolding simple_char_def escape_char_def u_escape_def by simp

lemma escape_char_astral:
  "65536 \<le> c \<Longrightarrow>
     escape_char c = [92, 117] @ hex4 (55296 + (c - 65536) div 1024 mod 1024)
                     @ [92, 117] @ hex4 (56320 + (c - 65536) mod 1024)"
  unfolding escape_char_def u_escape_def by simp

lemma escape_char_cases:
  obtains (simple) "simple_char c"
    | (literal) "\<not> simple_char c" "32 \<le> c" "c \<le> 126"
    | (bmp) "\<not> simple_char c" "\<not> (32 \<le> c \<and> c \<le> 126)" "c < 65536"
    | (astral) "65536 \<le> c"
  by (cases "simple_char c"; cases "32 \<le> c \<and> c \<le> 126"; cases "c < 65536") auto

lemma escape_char_u:
  assumes "take 2 (escape_char d @ t) = [92, 117]" and "d \<le> 1114111"
  shows "unhex4 (drop 2 (escape_char d @ t)) = Some (first_unit d)"
proof (cases d rule: escape_char_cases)
  case simple
  from escape_char_simple [OF this] assms(1) show ?thesis by auto
next
  case literal
  from escape_char_literal [OF this] assms(1) literal(1) show ?thesis
    by (auto simp: simple_char_def)
next
  case bmp
  from escape_char_bmp [OF this] bmp(3) show ?thesis
    by (simp add: unhex4_hex4 first_unit_def)
next
  case astral
  have "55296 + (d - 65536) div 1024 mod 1024 < 65536" by simp
  then show ?thesis
    using astral by (simp add: escape_char_astral [OF astral] unhex4_hex4 first_unit_def)
qed

lemma first_unit_not_low:
  "low_surrogate (first_unit d) \<Longrightarrow> low_surrogate d"
  by (auto simp: first_unit_def low_surrogate_def split: if_splits)

lemma wf_str_tail: "wf_str (c # s) \<Longrightarrow> wf_str s \<and> c \<le> 1114111"
  by (cases s) auto

lemma wf_str_pair: "wf_str (c # d # s) \<Longrightarrow> high_surrogate c \<Longrightarrow> \<not> low_surrogate d"
  by simp

lemma tail_u:
  assumes "wf_str (c # s)" and "high_surrogate c"
    and "take 2 (concat (map escape_char s) @ 34 # rest) = [92, 117]"
  shows "\<exists>v. unhex4 (drop 2 (concat (map escape_char s) @ 34 # rest)) = Some v \<and> \<not> low_surrogate v"
proof (cases s)
  case Nil
  with assms(3) show ?thesis by simp
next
  case (Cons d s')
  from assms(1) Cons have "wf_str (d # s')" using wf_str_tail by blast
  then have d: "d \<le> 1114111" using wf_str_tail by blast
  from assms(1,2) Cons have nl: "\<not> low_surrogate d" using wf_str_pair by blast
  have eq: "concat (map escape_char s) @ 34 # rest = escape_char d @ (concat (map escape_char s') @ 34 # rest)"
    using Cons by simp
  from assms(3) have "take 2 (escape_char d @ (concat (map escape_char s') @ 34 # rest)) = [92, 117]"
    unfolding eq .
  from escape_char_u [OF this d] have "unhex4 (drop 2 (concat (map escape_char s) @ 34 # rest)) = Some (first_unit d)"
    unfolding eq .
  moreover have "\<not> low_surrogate (first_unit d)" using nl first_unit_not_low by blast
  ultimately show ?thesis by blast
qed

lemma scanstring_escaped:
  "wf_str s \<Longrightarrow> scanstring (concat (map escape_char s) @ 34 # rest) = Some (s, rest)"
proof (induction s)
  case Nil
  show ?case by simp
next
  case (Cons c s)
  define T where "T = concat (map escape_char s) @ 34 # rest"
  from Cons.prems wf_str_tail have wf: "wf_str s" "c \<le> 1114111" by blast+
  with Cons.IH have IH: "scanstring T = Some (s, rest)" by (simp add: T_def)
  have split: "concat (map escape_char (c # s)) @ 34 # rest = escape_char c @ T"
    by (simp add: T_def)
  have "scanstring (escape_char c @ T) = Some (c # s, rest)"
  proof (cases c rule: escape_char_cases)
    case simple
    from escape_char_simple [OF this] obtain e where
      e: "escape_char c = [92, e]" "e \<noteq> 117" "simple_escape e = Some c" by blast
    show ?thesis by (simp add: e IH)
  next
    case literal
    from literal(1) have "c \<noteq> 34" "c \<noteq> 92" by (auto simp: simple_char_def)
    then show ?thesis
      using literal(2) by (simp add: escape_char_literal [OF literal] IH)
  next
    case bmp
    note e = escape_char_bmp [OF bmp]
    have u: "unhex4 (hex4 c @ T) = Some c" using bmp(3) by (rule unhex4_hex4)
    show ?thesis
    proof (cases "high_surrogate c \<and> take 2 T = [92, 117]")
      case True
      then have "take 2 (concat (map escape_char s) @ 34 # rest) = [92, 117]" by (simp add: T_def)
      from tail_u [OF Cons.prems _ this] True obtain v where
        v: "unhex4 (drop 2 T) = Some v" "\<not> low_surrogate v" unfolding T_def by blast
      from True have h: "55296 \<le> c" "c \<le> 56319" "take 2 T = [92, 117]"
        by (auto simp: high_surrogate_def)
      from v(2) have l: "(56320 \<le> v \<and> v \<le> 57343) = False" by (simp add: low_surrogate_def)
      show ?thesis
        by (simp add: e u v(1) h length_hex4 IH l del: not_le)
    next
      case False
      then have n: "(55296 \<le> c \<and> c \<le> 56319 \<and> take 2 T = [92, 117]) = False"
        by (auto simp: high_surrogate_def)
      show ?thesis
        by (simp add: e u length_hex4 IH n del: not_le)
    qed
  next
    case astral
    define hi where "hi = 55296 + (c - 65536) div 1024 mod 1024"
    define lo where "lo = 56320 + (c - 65536) mod 1024"
    have e: "escape_char c = [92, 117] @ hex4 hi @ [92, 117] @ hex4 lo"
      unfolding hi_def lo_def by (rule escape_char_astral [OF astral])
    have hi: "hi < 65536" "55296 \<le> hi" "hi \<le> 56319" by (simp_all add: hi_def)
    have lo: "lo < 65536" "56320 \<le> lo" "lo \<le> 57343" by (simp_all add: lo_def)
    have comb: "65536 + ((hi - 55296) * 1024 + (lo - 56320)) = c"
      using surrogate_sum [OF astral wf(2)] unfolding hi_def lo_def by simp
    have u1: "unhex4 (hex4 hi @ 92 # 117 # hex4 lo @ T) = Some hi" using hi(1) by (rule unhex4_hex4)
    have u2: "unhex4 (hex4 lo @ T) = Some lo" using lo(1) by (rule unhex4_hex4)
    have d4: "drop 4 (hex4 hi @ 92 # 117 # hex4 lo @ T) = 92 # 117 # hex4 lo @ T"
      by (rule drop4_hex4)
    have d6: "drop 6 (hex4 hi @ 92 # 117 # hex4 lo @ T) = hex4 lo @ T"
      by (simp add: length_hex4)
    have d10: "drop 10 (hex4 hi @ 92 # 117 # hex4 lo @ T) = T" by (rule drop10_hex4)
    show ?thesis
      using u1 u2 d4 d6 d10 comb hi lo
      by (simp add: e IH length_hex4)
  qed
  then show ?case unfolding split .
qed

lemma scanstring_encode_str:
  "wf_str s \<Longrightarrow> scanstring (tl (encode_str s) @ rest) = Some (s, rest)"
  by (simp add: encode_str_def scanstring_escaped)





























end
